theory Spec2Isabelle
  imports Main
begin

section \<open>JavaScript strings, arrays and objects\<close>

text \<open>
  Pattern strings are JavaScript strings; they are modelled as character lists.
  Reading position \<open>i\<close> of a string gives \<open>undefined\<close> beyond its end, which
  is \<open>None\<close> here.
\<close>

definition charAt :: "string \<Rightarrow> nat \<Rightarrow> char option" where
  "charAt s i = (if i < length s then Some (s ! i) else None)"

text \<open>\<open>m.toString(2)\<close> for a non-negative integer.\<close>

fun toBinary :: "nat \<Rightarrow> string" where
  "toBinary m =
     (if m < 2 then (if m = 0 then ''0'' else ''1'')
      else toBinary (m div 2) @ (if m mod 2 = 0 then ''0'' else ''1''))"

declare toBinary.simps [simp del]

text \<open>\<open>s.padStart(n, c)\<close> with a one-character filler.\<close>

definition padStart :: "nat \<Rightarrow> char \<Rightarrow> string \<Rightarrow> string" where
  "padStart n c s = replicate (n - length s) c @ s"

text \<open>\<open>m.toString(2).padStart(numVars, '0')\<close>, used all over the repository.\<close>

definition binaryOf :: "nat \<Rightarrow> nat \<Rightarrow> string" where
  "binaryOf numVars m = padStart numVars (CHR ''0'') (toBinary m)"

text \<open>\<open>parseInt(s, 2)\<close> on a string of binary digits.\<close>

definition parseBinary :: "string \<Rightarrow> nat" where
  "parseBinary s = foldl (\<lambda>v c. 2 * v + (if c = CHR ''1'' then 1 else 0)) 0 s"

text \<open>\<open>[...new Set(xs)]\<close>: the elements of \<open>xs\<close> in order of first occurrence.\<close>

definition uniq :: "'a list \<Rightarrow> 'a list" where
  "uniq xs = foldl (\<lambda>acc x. if x \<in> set acc then acc else acc @ [x]) [] xs"

text \<open>\<open>parts.join(sep)\<close> on an array of strings.\<close>

fun joinWith :: "string \<Rightarrow> string list \<Rightarrow> string" where
  "joinWith sep [] = []"
| "joinWith sep [x] = x"
| "joinWith sep (x # y # ys) = x @ sep @ joinWith sep (y # ys)"

text \<open>
  \<open>variables[i]\<close> where the value is concatenated to a string: beyond the end of the
  array the value is \<open>undefined\<close>, which concatenation prints as such.
\<close>

definition varAt :: "string list \<Rightarrow> nat \<Rightarrow> string" where
  "varAt variables i = (if i < length variables then variables ! i else ''undefined'')"

text \<open>\<open>xs.indexOf(x)\<close>: the first position of \<open>x\<close>, or \<open>-1\<close>.\<close>

fun indexOf :: "'a list \<Rightarrow> 'a \<Rightarrow> int" where
  "indexOf [] x = -1"
| "indexOf (y # ys) x = (if y = x then 0 else (let r = indexOf ys x in if r < 0 then -1 else r + 1))"

text \<open>
  A plain object with integer keys, as an association list. JavaScript enumerates such keys
  in ascending numeric order, whatever the order of insertion, so the list is kept
  ascending; \<open>objSet\<close> is the assignment \<open>obj[k] = v\<close>, \<open>objGet\<close> the read
  \<open>obj[k]\<close> (\<open>None\<close> for \<open>undefined\<close>) and \<open>map snd\<close> is
  \<open>Object.values\<close>.
\<close>

fun objSet :: "nat \<Rightarrow> 'v \<Rightarrow> (nat \<times> 'v) list \<Rightarrow> (nat \<times> 'v) list" where
  "objSet k v [] = [(k, v)]"
| "objSet k v ((k', v') # rest) =
     (if k < k' then (k, v) # (k', v') # rest
      else if k = k' then (k, v) # rest
      else (k', v') # objSet k v rest)"

definition objGet :: "(nat \<times> 'v) list \<Rightarrow> nat \<Rightarrow> 'v option" where
  "objGet obj k = map_of obj k"

text \<open>Decimal printing of a number inside a template string.\<close>

fun showNat :: "nat \<Rightarrow> string" where
  "showNat n =
     (if n < 10 then [char_of (48 + n)]
      else showNat (n div 10) @ [char_of (48 + n mod 10)])"

declare showNat.simps [simp del]

text \<open>
  The errors the modelled functions can raise: \<open>Error msg\<close> is
  \<open>throw new Error(msg)\<close>; \<open>TypeError\<close> is the exception JavaScript raises on
  assigning to a property of \<open>undefined\<close>.
\<close>

datatype jsError = Error string | TypeError

section \<open>simplifier.js: the cube model\<close>

text \<open>
  The loop of \<open>combineBinary\<close> over the positions of \<open>bin1\<close>. The
  state is the pair \<open>(differences, diffPos)\<close>; \<open>None\<close> is the early
  \<open>return null\<close> taken when the strings differ at a position where either has a dash.
\<close>

fun combineScan :: "string \<Rightarrow> string \<Rightarrow> nat list \<Rightarrow> nat \<times> int \<Rightarrow> (nat \<times> int) option" where
  "combineScan bin1 bin2 [] st = Some st"
| "combineScan bin1 bin2 (i # is) (differences, diffPos) =
     (if charAt bin1 i \<noteq> charAt bin2 i then
        (if charAt bin1 i = Some (CHR ''-'') \<or> charAt bin2 i = Some (CHR ''-'') then None
         else combineScan bin1 bin2 is (differences + 1, int i))
      else combineScan bin1 bin2 is (differences, diffPos))"

definition combineBinary :: "string \<Rightarrow> string \<Rightarrow> string option" where
  "combineBinary bin1 bin2 =
     (case combineScan bin1 bin2 [0..<length bin1] (0, -1) of
        None \<Rightarrow> None
      | Some (differences, diffPos) \<Rightarrow>
          if differences = 1
          then Some (take (nat diffPos) bin1 @ ''-'' @ drop (nat diffPos + 1) bin1)
          else None)"

section \<open>simplifier.js: prime implicant generation\<close>

text \<open>
  A term object \<open>{binary, minterms, used}\<close>. The code compares term objects by
  reference (\<open>includes\<close>) and marks them through shared references
  (\<open>term1.used = true\<close>), so every object carries its identity \<open>oid\<close>: the
  initial terms are numbered in order, and each object created by a pass gets the next
  free number.
\<close>

record implicant =
  binary :: string
  minterms :: "nat list"
  used :: bool
  oid :: nat

text \<open>\<open>(term.binary.match(/1/g) || []).length\<close>\<close>

definition countOnes :: "string \<Rightarrow> nat" where
  "countOnes s = length (filter (\<lambda>c. c = CHR ''1'') s)"

text \<open>
  \<open>groupByOnes\<close>: the object \<open>groups\<close> is keyed by the number of ones, and the
  result lists its values by ascending key (which is the order \<open>objSet\<close> keeps, so the
  numeric sort of the keys changes nothing).
\<close>

definition groupByOnes :: "implicant list \<Rightarrow> implicant list list" where
  "groupByOnes terms =
     map snd (foldl (\<lambda>groups term.
        let ones = countOnes (binary term) in
        objSet ones ((case objGet groups ones of None \<Rightarrow> [] | Some g \<Rightarrow> g) @ [term]) groups)
      [] terms)"

text \<open>
  \<open>term.used = true\<close> on the object with identity \<open>r\<close>: the change is seen
  through the array \<open>terms\<close>, which holds the same objects as the groups.
\<close>

definition markUsed :: "nat \<Rightarrow> implicant list \<Rightarrow> implicant list" where
  "markUsed r terms = map (\<lambda>t. if oid t = r then t\<lparr>used := True\<rparr> else t) terms"

text \<open>
  The body of the innermost loop, on the state \<open>(terms, newTerms)\<close>; \<open>fresh\<close> is
  the first free object identity at the start of the pass. (The set \<open>grouped\<close> of the
  source is written and never read; it is left out.)
\<close>

definition combineStep ::
  "nat \<Rightarrow> implicant \<Rightarrow> implicant \<Rightarrow> implicant list \<times> implicant list \<Rightarrow> implicant list \<times> implicant list" where
  "combineStep fresh term1 term2 st =
     (case combineBinary (binary term1) (binary term2) of
        None \<Rightarrow> st
      | Some combined \<Rightarrow>
          (let terms = markUsed (oid term2) (markUsed (oid term1) (fst st));
               newTerms = snd st;
               exists = (\<exists>t \<in> set newTerms. binary t = combined)
           in if \<not> exists
              then (terms, newTerms @
                      [\<lparr>binary = combined,
                        minterms = uniq (minterms term1 @ minterms term2),
                        used = False,
                        oid = fresh + length newTerms\<rparr>])
              else (terms, newTerms)))"

text \<open>The two loops over \<open>group1\<close> and \<open>group2\<close>.\<close>

definition combineGroups ::
  "nat \<Rightarrow> implicant list \<Rightarrow> implicant list \<Rightarrow> implicant list \<times> implicant list \<Rightarrow> implicant list \<times> implicant list" where
  "combineGroups fresh group1 group2 st =
     foldl (\<lambda>st term1. foldl (\<lambda>st term2. combineStep fresh term1 term2 st) st group2) st group1"

text \<open>
  One pass of the \<open>while\<close> loop up to the end of the \<open>for\<close> loop over adjacent groups:
  pairs \<open>(groups[i], groups[i + 1])\<close> for \<open>i < groups.length - 1\<close>. The result is
  the array \<open>terms\<close> with its marks, and \<open>newTerms\<close>.
\<close>

definition mergePass :: "nat \<Rightarrow> implicant list \<Rightarrow> implicant list \<times> implicant list" where
  "mergePass fresh terms =
     (let groups = groupByOnes terms
      in foldl (\<lambda>st (group1, group2). combineGroups fresh group1 group2 st)
           (terms, []) (zip groups (tl groups)))"

text \<open>
  The \<open>while (iteration < numVars)\<close> loop. The state is \<open>terms\<close>,
  \<open>primeImplicants\<close> and \<open>iteration\<close>, with the next free object identity
  \<open>fresh\<close>; the component \<open>passes\<close> counts the executions of the loop body (it is
  not a variable of the source). The first branch of the inner \<open>if\<close> is the
  \<open>break\<close>.
\<close>

function qmLoop ::
  "nat \<Rightarrow> nat \<Rightarrow> nat \<Rightarrow> implicant list \<Rightarrow> implicant list \<Rightarrow> nat
     \<Rightarrow> implicant list \<times> implicant list \<times> nat" where
  "qmLoop numVars iteration fresh terms primeImplicants passes =
     (if iteration < numVars then
        (let (terms', newTerms) = mergePass fresh terms;
             primeImplicants' = primeImplicants @ filter (\<lambda>term. \<not> used term) terms'
         in if length newTerms = 0 then (terms', primeImplicants', passes + 1)
            else qmLoop numVars (iteration + 1) (fresh + length newTerms) newTerms
                   primeImplicants' (passes + 1))
      else (terms, primeImplicants, passes))"
  by pat_completeness auto
termination
  by (relation "measure (\<lambda>(numVars, iteration, fresh, terms, primeImplicants, passes). numVars - iteration)")
     auto

declare qmLoop.simps [simp del]

definition initialTerms :: "nat list \<Rightarrow> nat \<Rightarrow> implicant list" where
  "initialTerms mins numVars =
     map (\<lambda>(i, m). \<lparr>binary = binaryOf numVars m, minterms = [m], used = False, oid = i\<rparr>)
       (zip [0..<length mins] mins)"

definition quineMcCluskey :: "nat list \<Rightarrow> nat \<Rightarrow> implicant list" where
  "quineMcCluskey mins numVars =
     (let (terms, primeImplicants, passes) =
            qmLoop numVars 0 (length mins) (initialTerms mins numVars) [] 0
      in primeImplicants @ filter (\<lambda>term. \<not> used term) terms)"

text \<open>The number of executions of the loop body in \<open>quineMcCluskey\<close>.\<close>

definition quineMcCluskeyPasses :: "nat list \<Rightarrow> nat \<Rightarrow> nat" where
  "quineMcCluskeyPasses mins numVars =
     snd (snd (qmLoop numVars 0 (length mins) (initialTerms mins numVars) [] 0))"

section \<open>simplifier.js: the coverage solver\<close>

text \<open>
  The object \<open>coverage\<close>: an empty list for each minterm, then the index of every
  prime implicant under each of its minterms that is a key.
\<close>

definition buildCoverage :: "implicant list \<Rightarrow> nat list \<Rightarrow> (nat \<times> nat list) list" where
  "buildCoverage primeImplicants mins =
     foldl (\<lambda>coverage (index, pi).
         foldl (\<lambda>coverage m.
            case objGet coverage m of
              Some piList \<Rightarrow> objSet m (piList @ [index]) coverage
            | None \<Rightarrow> coverage) coverage (minterms pi))
       (foldl (\<lambda>coverage m. objSet m [] coverage) [] mins)
       (zip [0..<length primeImplicants] primeImplicants)"

text \<open>
  \<open>essentialIndices\<close>: a \<open>Set\<close>, which keeps insertion order, filled from the lists
  of length one.
\<close>

definition essentialIndices :: "(nat \<times> nat list) list \<Rightarrow> nat list" where
  "essentialIndices coverage =
     foldl (\<lambda>acc piList.
         if length piList = 1 then (if hd piList \<in> set acc then acc else acc @ [hd piList])
         else acc)
       [] (map snd coverage)"

definition essentialPIsOf :: "implicant list \<Rightarrow> nat list \<Rightarrow> implicant list" where
  "essentialPIsOf primeImplicants mins =
     map (\<lambda>i. primeImplicants ! i) (essentialIndices (buildCoverage primeImplicants mins))"

text \<open>\<open>xs.includes(pi)\<close> on term objects compares references.\<close>

definition includesObj :: "implicant list \<Rightarrow> implicant \<Rightarrow> bool" where
  "includesObj xs pi = (oid pi \<in> oid ` set xs)"

text \<open>\<open>pi.minterms.filter(m => uncovered.includes(m)).length\<close>\<close>

definition coverageCount :: "implicant \<Rightarrow> nat list \<Rightarrow> nat" where
  "coverageCount pi uncovered = length (filter (\<lambda>m. m \<in> set uncovered) (minterms pi))"

text \<open>
  The \<open>forEach\<close> inside the greedy loop, on the state \<open>(bestPI, maxCoverage)\<close>,
  starting from \<open>(null, 0)\<close>.
\<close>

definition pickBest ::
  "implicant list \<Rightarrow> implicant list \<Rightarrow> implicant list \<Rightarrow> nat list \<Rightarrow> implicant option" where
  "pickBest primeImplicants essentialPIs additionalPIs uncovered =
     fst (foldl (\<lambda>(bestPI, maxCoverage) pi.
            if \<not> includesObj essentialPIs pi \<and> \<not> includesObj additionalPIs pi then
              (let coverage = coverageCount pi uncovered
               in if coverage > maxCoverage then (Some pi, coverage) else (bestPI, maxCoverage))
            else (bestPI, maxCoverage))
          (None, 0) primeImplicants)"

text \<open>
  \<open>bestPI.minterms.forEach\<close>: each minterm of the chosen implicant is spliced out of
  \<open>uncovered\<close> at its first position, if it is there.
\<close>

definition spliceCovered :: "nat list \<Rightarrow> implicant \<Rightarrow> nat list" where
  "spliceCovered uncovered bestPI = foldl (\<lambda>unc m. remove1 m unc) uncovered (minterms bestPI)"

text \<open>
  The loop \<open>while (uncovered.length > 0)\<close>; it returns \<open>additionalPIs\<close>. The
  branch \<open>None\<close> is the \<open>break\<close>.
\<close>

function greedyCover ::
  "implicant list \<Rightarrow> implicant list \<Rightarrow> implicant list \<Rightarrow> nat list \<Rightarrow> implicant list" where
  "greedyCover primeImplicants essentialPIs additionalPIs uncovered =
     (if length uncovered > 0 then
        (case pickBest primeImplicants essentialPIs additionalPIs uncovered of
           Some bestPI \<Rightarrow>
             greedyCover primeImplicants essentialPIs (additionalPIs @ [bestPI])
               (spliceCovered uncovered bestPI)
         | None \<Rightarrow> additionalPIs)
      else additionalPIs)"
  by pat_completeness auto
termination
proof (relation "measure (\<lambda>(primeImplicants, essentialPIs, additionalPIs, uncovered). length uncovered)")
  show "wf (measure (\<lambda>(primeImplicants, essentialPIs, additionalPIs, uncovered). length uncovered))"
    by simp
next
  fix primeImplicants essentialPIs additionalPIs :: "implicant list"
  fix uncovered :: "nat list" and bestPI :: implicant
  assume pick: "pickBest primeImplicants essentialPIs additionalPIs uncovered = Some bestPI"
  let ?step = "\<lambda>(bestPI, maxCoverage) pi.
            if \<not> includesObj essentialPIs pi \<and> \<not> includesObj additionalPIs pi then
              (let coverage = coverageCount pi uncovered
               in if coverage > maxCoverage then (Some pi, coverage) else (bestPI, maxCoverage))
            else (bestPI, maxCoverage)"
  have inv: "\<And>st. (\<forall>p. fst st = Some p \<longrightarrow> 0 < coverageCount p uncovered) \<Longrightarrow>
      (\<forall>p. fst (foldl ?step st ps) = Some p \<longrightarrow> 0 < coverageCount p uncovered)" for ps
  proof (induction ps)
    case Nil
    then show ?case by simp
  next
    case (Cons q ps)
    show ?case
      unfolding foldl_Cons
      by (rule Cons.IH) (use Cons.prems in \<open>auto simp: Let_def split: prod.splits if_splits\<close>)
  qed
  have "0 < coverageCount bestPI uncovered"
    using inv [of "(None, 0)" primeImplicants] pick unfolding pickBest_def by simp
  then obtain m where m: "m \<in> set (minterms bestPI)" "m \<in> set uncovered"
    unfolding coverageCount_def by (auto simp: filter_empty_conv)
  have le: "\<And>unc. length (foldl (\<lambda>unc m. remove1 m unc) unc ms) \<le> length unc" for ms
  proof (induction ms)
    case Nil
    show ?case by simp
  next
    case (Cons x ms)
    have "length (foldl (\<lambda>unc m. remove1 m unc) (remove1 x unc) ms) \<le> length (remove1 x unc)"
      by (rule Cons.IH)
    also have "\<dots> \<le> length unc"
      by (simp add: length_remove1)
    finally show ?case by simp
  qed
  have lt: "\<And>unc. m \<in> set ms \<Longrightarrow> m \<in> set unc \<Longrightarrow>
      length (foldl (\<lambda>unc m. remove1 m unc) unc ms) < length unc" for ms
  proof (induction ms)
    case Nil
    then show ?case by simp
  next
    case (Cons x ms)
    show ?case
    proof (cases "x \<in> set unc")
      case True
      then have "length (remove1 x unc) < length unc"
        using length_pos_if_in_set [of x unc] by (simp add: length_remove1)
      with le [of "remove1 x unc" ms] show ?thesis by simp
    next
      case False
      then have "remove1 x unc = unc" by (simp add: remove1_idem)
      moreover from False Cons.prems have "m \<in> set ms" by auto
      ultimately show ?thesis using Cons.IH [of unc] Cons.prems(2) by simp
    qed
  qed
  show "((primeImplicants, essentialPIs, additionalPIs @ [bestPI], spliceCovered uncovered bestPI),
         (primeImplicants, essentialPIs, additionalPIs, uncovered))
        \<in> measure (\<lambda>(primeImplicants, essentialPIs, additionalPIs, uncovered). length uncovered)"
    using lt [OF m] by (simp add: spliceCovered_def)
qed

declare greedyCover.simps [simp del]

text \<open>
  \<open>findEssentialPrimeImplicants\<close>: the essential implicants, the minterms they leave
  uncovered, and the greedy completion; the result is \<open>[...essentialPIs, ...additionalPIs]\<close>.
\<close>

definition uncoveredOf :: "implicant list \<Rightarrow> nat list \<Rightarrow> nat list" where
  "uncoveredOf essentialPIs mins =
     (let coveredMinterms = set (concat (map minterms essentialPIs))
      in filter (\<lambda>m. m \<notin> coveredMinterms) mins)"

definition findEssentialPrimeImplicants :: "implicant list \<Rightarrow> nat list \<Rightarrow> implicant list" where
  "findEssentialPrimeImplicants primeImplicants mins =
     (let essentialPIs = essentialPIsOf primeImplicants mins;
          uncovered = uncoveredOf essentialPIs mins;
          additionalPIs = greedyCover primeImplicants essentialPIs [] uncovered
      in essentialPIs @ additionalPIs)"

section \<open>simplifier.js: rendering and \<open>simplify\<close>\<close>

text \<open>
  The product term of one implicant in \<open>convertToSOP\<close>: the loop over the positions
  of \<open>pi.binary\<close> appends a literal for every \<open>1\<close> and \<open>0\<close>; an empty term is
  printed as \<open>1\<close>.
\<close>

definition sopTerm :: "string list \<Rightarrow> implicant \<Rightarrow> string" where
  "sopTerm variables pi =
     (let term = foldl (\<lambda>term i.
                   if binary pi ! i = CHR ''1'' then term @ varAt variables i
                   else if binary pi ! i = CHR ''0'' then term @ varAt variables i @ [CHR 0x27]
                   else term)
                 [] [0..<length (binary pi)]
      in if term = [] then ''1'' else term)"

definition convertToSOP :: "implicant list \<Rightarrow> string list \<Rightarrow> string" where
  "convertToSOP primeImplicants variables =
     (if length primeImplicants = 0 then ''0''
      else joinWith '' + '' (map (sopTerm variables) primeImplicants))"

text \<open>
  The sum term of one maxterm in \<open>convertToPOS\<close>. A variable read beyond the end of
  \<open>variables\<close> is \<open>undefined\<close>: \<open>join\<close> prints it as the empty string, and
  concatenation with the quote as \<open>undefined'\<close>. The separator of the terms is the
  middle dot, code unit \<open>0xB7\<close>.
\<close>

definition posTerm :: "string list \<Rightarrow> nat \<Rightarrow> string" where
  "posTerm variables maxterm =
     (let binary = binaryOf (length variables) maxterm;
          literals = map (\<lambda>(bit, idx).
                        if bit = CHR ''0''
                        then (if idx < length variables then variables ! idx else [])
                        else varAt variables idx @ [CHR 0x27])
                      (zip binary [0..<length binary])
      in ''('' @ joinWith '' + '' literals @ '')'')"

definition convertToPOS :: "nat list \<Rightarrow> string list \<Rightarrow> string" where
  "convertToPOS maxterms variables =
     (if length maxterms = 0 then ''1''
      else joinWith [CHR 0xB7] (map (posTerm variables) maxterms))"

text \<open>
  The fields that \<open>simplify\<close> and \<open>KarnaughMap.generate\<close> read from their argument.
  A truth table and a K-map are extensions of this record. The field \<open>dontCares\<close> of an
  object that has none is the default \<open>[]\<close> of the destructuring.
\<close>

record tableData =
  variables :: "string list"
  mins :: "nat list"
  numVars :: nat
  dontCares :: "nat list"

record cellGroup =
  groupMinterms :: "nat list"
  groupSize :: nat
  groupBinary :: string

definition findGroups :: "'a tableData_scheme \<Rightarrow> cellGroup list" where
  "findGroups kmap =
     map (\<lambda>m. \<lparr>groupMinterms = [m], groupSize = 1, groupBinary = binaryOf (numVars kmap) m\<rparr>)
       (mins kmap)"

text \<open>
  The object \<open>simplify\<close> returns. In the two constant cases it has no field
  \<open>groups\<close>.
\<close>

record simplified =
  sop :: string
  pos :: string
  primeImplicants :: "implicant list"
  essentialPrimeImplicants :: "implicant list"
  groups :: "cellGroup list option"

definition simplify :: "'a tableData_scheme \<Rightarrow> simplified" where
  "simplify kmap =
     (if length (mins kmap) = 0 then
        \<lparr>sop = ''0'', pos = ''1'', primeImplicants = [], essentialPrimeImplicants = [],
         groups = None\<rparr>
      else if length (mins kmap) = 2 ^ numVars kmap then
        \<lparr>sop = ''1'', pos = ''0'', primeImplicants = [], essentialPrimeImplicants = [],
         groups = None\<rparr>
      else
        (let allOnes = mins kmap @ dontCares kmap;
             pis = quineMcCluskey allOnes (numVars kmap);
             essentialPIs = findEssentialPrimeImplicants pis (mins kmap);
             sopText = convertToSOP essentialPIs (variables kmap);
             allTerms = [0..<2 ^ numVars kmap];
             maxterms = filter (\<lambda>t. t \<notin> set (mins kmap) \<and> t \<notin> set (dontCares kmap)) allTerms;
             posText = convertToPOS maxterms (variables kmap)
         in \<lparr>sop = sopText, pos = posText, primeImplicants = pis,
             essentialPrimeImplicants = essentialPIs, groups = Some (findGroups kmap)\<rparr>))"

section \<open>truthTable.js: \<open>generateFromOutputs\<close>\<close>

text \<open>
  The entries of the array \<open>outputs\<close> are arbitrary JavaScript values; the code tests
  them for identity with the string \<open>X\<close> and for truthiness.
\<close>

datatype jsValue = JNum int | JStr string | JBool bool | JUndefined

fun truthy :: "jsValue \<Rightarrow> bool" where
  "truthy (JNum n) = (n \<noteq> 0)"
| "truthy (JStr s) = (s \<noteq> [])"
| "truthy (JBool b) = b"
| "truthy JUndefined = False"

text \<open>The field \<open>output\<close> of a row: \<open>0\<close>, \<open>1\<close> or the string \<open>X\<close>.\<close>

datatype rowOutput = Out nat | OutX

text \<open>
  \<open>parseInt(binary[index])\<close>: the digit at the position, \<open>None\<close> for \<open>NaN\<close>
  (a position beyond the end of the string).
\<close>

definition parseBit :: "char option \<Rightarrow> nat option" where
  "parseBit c = (if c = Some (CHR ''0'') then Some 0 else if c = Some (CHR ''1'') then Some 1 else None)"

text \<open>
  The object \<open>values\<close>, keyed by variable name: an association list in insertion order,
  where assigning to a name that is present overwrites its value in place.
\<close>

fun assign :: "string \<Rightarrow> 'v \<Rightarrow> (string \<times> 'v) list \<Rightarrow> (string \<times> 'v) list" where
  "assign k v [] = [(k, v)]"
| "assign k v ((k', v') # rest) = (if k = k' then (k, v) # rest else (k', v') # assign k v rest)"

definition inputValues :: "string list \<Rightarrow> string \<Rightarrow> (string \<times> nat option) list" where
  "inputValues vars bin =
     foldl (\<lambda>values (variable, index). assign variable (parseBit (charAt bin index)) values)
       [] (zip vars [0..<length vars])"

record tableRow =
  rowIndex :: nat
  rowInputs :: "(string \<times> nat option) list"
  rowOutput :: rowOutput
  rowBinary :: string
  isDontCare :: bool

record truthTable = tableData +
  rows :: "tableRow list"
  maxterms :: "nat list"

text \<open>
  The body of the loop over the rows, on the state
  \<open>(rows, minterms, maxterms, dontCareTerms)\<close>, here \<open>(rws, minT, maxT, dcT)\<close>.
\<close>

definition outputsStep ::
  "string list \<Rightarrow> jsValue list \<Rightarrow> nat list
     \<Rightarrow> tableRow list \<times> nat list \<times> nat list \<times> nat list \<Rightarrow> nat
     \<Rightarrow> tableRow list \<times> nat list \<times> nat list \<times> nat list" where
  "outputsStep vars outputs dontCaresArg st i =
     (case st of (rws, minT, maxT, dcT) \<Rightarrow>
        (let bin = binaryOf (length vars) i;
             values = inputValues vars bin;
             output = outputs ! i
         in if output = JStr ''X'' \<or> i \<in> set dontCaresArg then
              (rws @ [\<lparr>rowIndex = i, rowInputs = values, rowOutput = OutX, rowBinary = bin,
                        isDontCare = True\<rparr>],
               minT, maxT, dcT @ [i])
            else if truthy output then
              (rws @ [\<lparr>rowIndex = i, rowInputs = values, rowOutput = Out 1, rowBinary = bin,
                        isDontCare = False\<rparr>],
               minT @ [i], maxT, dcT)
            else
              (rws @ [\<lparr>rowIndex = i, rowInputs = values, rowOutput = Out 0, rowBinary = bin,
                        isDontCare = False\<rparr>],
               minT, maxT @ [i], dcT)))"

text \<open>
  \<open>generateFromOutputs(variables, outputs, dontCares)\<close>. The loop reads
  \<open>outputs[i]\<close> only for \<open>i < numRows\<close>, which is the length of \<open>outputs\<close> once
  the check has passed.
\<close>

definition generateFromOutputs ::
  "string list \<Rightarrow> jsValue list \<Rightarrow> nat list \<Rightarrow> jsError + truthTable" where
  "generateFromOutputs vars outputs dontCaresArg =
     (let nVars = length vars; numRows = 2 ^ nVars
      in if length outputs \<noteq> numRows then
           Inl (Error (''Expected '' @ showNat numRows @ '' output values, got '' @
                       showNat (length outputs)))
         else
           (case foldl (outputsStep vars outputs dontCaresArg) ([], [], [], []) [0..<numRows] of
              (rws, minT, maxT, dcT) \<Rightarrow>
                Inr \<lparr>variables = vars, mins = minT, numVars = nVars, dontCares = dcT,
                     rows = rws, maxterms = maxT\<rparr>))"

section \<open>kmap.js: the adjacency grid\<close>

text \<open>
  A cell holds \<open>0\<close>, \<open>1\<close> or \<open>X\<close>; \<open>Hole\<close> is an array position that was never
  assigned. A K-map of up to four variables has one grid, one of five or six variables an
  array of grids.
\<close>

datatype cell = C0 | C1 | CX | Hole

datatype kgrid = SingleMap "cell list list" | MultiMap "cell list list list"

text \<open>
  \<open>grid[row][col] = v\<close>. Where \<open>grid[row]\<close> is \<open>undefined\<close> the assignment raises
  a \<open>TypeError\<close>. A negative \<open>col\<close> names a property of the row that is not an
  element, so no cell changes; a \<open>col\<close> beyond the end extends the row.
\<close>

definition setAt :: "cell list \<Rightarrow> int \<Rightarrow> cell \<Rightarrow> cell list" where
  "setAt r col v =
     (if col < 0 then r
      else if nat col < length r then r[nat col := v]
      else r @ replicate (nat col - length r) Hole @ [v])"

definition setCell :: "cell list list \<Rightarrow> int \<Rightarrow> int \<Rightarrow> cell \<Rightarrow> jsError + cell list list" where
  "setCell grid row col v =
     (if row < 0 \<or> int (length grid) \<le> row then Inl TypeError
      else Inr (grid[nat row := setAt (grid ! nat row) col v]))"

text \<open>\<open>grids[mapIndex][row][col] = v\<close>\<close>

definition setCellIn ::
  "cell list list list \<Rightarrow> int \<Rightarrow> int \<Rightarrow> int \<Rightarrow> cell \<Rightarrow> jsError + cell list list list" where
  "setCellIn grids mapIndex row col v =
     (if mapIndex < 0 \<or> int (length grids) \<le> mapIndex then Inl TypeError
      else (case setCell (grids ! nat mapIndex) row col v of
              Inl e \<Rightarrow> Inl e
            | Inr g \<Rightarrow> Inr (grids[nat mapIndex := g])))"

text \<open>A \<open>forEach\<close> whose body may raise: the first exception ends it.\<close>

fun forEachE :: "('s \<Rightarrow> 'a \<Rightarrow> jsError + 's) \<Rightarrow> 's \<Rightarrow> 'a list \<Rightarrow> jsError + 's" where
  "forEachE f s [] = Inr s"
| "forEachE f s (x # xs) = (case f s x of Inl e \<Rightarrow> Inl e | Inr s' \<Rightarrow> forEachE f s' xs)"

definition grayCode :: "string list" where
  "grayCode = [''00'', ''01'', ''11'', ''10'']"

text \<open>
  The cell a minterm is written to, as each \<open>create\<dots>VarKMap\<close> computes it:
  \<open>(row, col)\<close> for two to four variables, \<open>(map, row, col)\<close> for five and six. For
  three variables \<open>parseInt(rowBit)\<close> reads the first character of a non-empty binary
  string.
\<close>

definition place2 :: "nat \<Rightarrow> int \<times> int" where
  "place2 m = (int (m div 2), int (m mod 2))"

definition place3 :: "nat \<Rightarrow> int \<times> int" where
  "place3 m =
     (let bin = binaryOf 3 m;
          rowBit = take 1 bin;
          colBits = drop 1 bin
      in (if rowBit = ''1'' then 1 else 0, indexOf grayCode colBits))"

definition place4 :: "nat \<Rightarrow> int \<times> int" where
  "place4 m =
     (let bin = binaryOf 4 m;
          rowBits = take 2 bin;
          colBits = drop 2 bin
      in (indexOf grayCode rowBits, indexOf grayCode colBits))"

definition place5 :: "nat \<Rightarrow> int \<times> int \<times> int" where
  "place5 m =
     (let bin = binaryOf 5 m;
          firstBit = take 1 bin;
          rowBits = take 2 (drop 1 bin);
          colBits = drop 3 bin
      in (if firstBit = ''0'' then 0 else 1, indexOf grayCode rowBits, indexOf grayCode colBits))"

definition place6 :: "nat \<Rightarrow> int \<times> int \<times> int" where
  "place6 m =
     (let bin = binaryOf 6 m;
          firstTwoBits = take 2 bin;
          rowBits = take 2 (drop 2 bin);
          colBits = drop 4 bin
      in (indexOf grayCode firstTwoBits, indexOf grayCode rowBits, indexOf grayCode colBits))"

text \<open>
  The object a \<open>create\<dots>VarKMap\<close> returns. An entry of \<open>rowVars\<close> and
  \<open>colVars\<close> is \<open>None\<close> where \<open>variables\<close> is too short.
\<close>

record dimensions =
  dimRows :: nat
  dimCols :: nat
  dimMaps :: "nat option"

record kmapLayout =
  grid :: kgrid
  rowLabels :: "string list"
  colLabels :: "string list"
  rowVars :: "string option list"
  colVars :: "string option list"
  mapLabels :: "string list option"
  dims :: dimensions

definition varOpt :: "string list \<Rightarrow> nat \<Rightarrow> string option" where
  "varOpt vars i = (if i < length vars then Some (vars ! i) else None)"

definition emptyGrid :: "nat \<Rightarrow> nat \<Rightarrow> cell list list" where
  "emptyGrid r c = replicate r (replicate c C0)"

text \<open>The two \<open>forEach\<close> loops of a single-grid K-map: minterms first, then don't-cares.\<close>

definition fillSingle ::
  "(nat \<Rightarrow> int \<times> int) \<Rightarrow> cell list list \<Rightarrow> nat list \<Rightarrow> nat list \<Rightarrow> jsError + cell list list" where
  "fillSingle place g ms dcs =
     (case forEachE (\<lambda>g m. case place m of (row, col) \<Rightarrow> setCell g row col C1) g ms of
        Inl e \<Rightarrow> Inl e
      | Inr g' \<Rightarrow> forEachE (\<lambda>g m. case place m of (row, col) \<Rightarrow> setCell g row col CX) g' dcs)"

definition fillMulti ::
  "(nat \<Rightarrow> int \<times> int \<times> int) \<Rightarrow> cell list list list \<Rightarrow> nat list \<Rightarrow> nat list
     \<Rightarrow> jsError + cell list list list" where
  "fillMulti place gs ms dcs =
     (case forEachE (\<lambda>gs m. case place m of (mapIndex, row, col) \<Rightarrow> setCellIn gs mapIndex row col C1)
             gs ms of
        Inl e \<Rightarrow> Inl e
      | Inr gs' \<Rightarrow>
          forEachE (\<lambda>gs m. case place m of (mapIndex, row, col) \<Rightarrow> setCellIn gs mapIndex row col CX)
            gs' dcs)"

definition create2VarKMap :: "string list \<Rightarrow> nat list \<Rightarrow> nat list \<Rightarrow> jsError + kmapLayout" where
  "create2VarKMap vars ms dcs =
     (case fillSingle place2 (emptyGrid 2 2) ms dcs of
        Inl e \<Rightarrow> Inl e
      | Inr g \<Rightarrow> Inr \<lparr>grid = SingleMap g, rowLabels = [''0'', ''1''], colLabels = [''0'', ''1''],
                      rowVars = [varOpt vars 0], colVars = [varOpt vars 1], mapLabels = None,
                      dims = \<lparr>dimRows = 2, dimCols = 2, dimMaps = None\<rparr>\<rparr>)"

definition create3VarKMap :: "string list \<Rightarrow> nat list \<Rightarrow> nat list \<Rightarrow> jsError + kmapLayout" where
  "create3VarKMap vars ms dcs =
     (case fillSingle place3 (emptyGrid 2 4) ms dcs of
        Inl e \<Rightarrow> Inl e
      | Inr g \<Rightarrow> Inr \<lparr>grid = SingleMap g, rowLabels = [''0'', ''1''], colLabels = grayCode,
                      rowVars = [varOpt vars 0], colVars = [varOpt vars 1, varOpt vars 2],
                      mapLabels = None,
                      dims = \<lparr>dimRows = 2, dimCols = 4, dimMaps = None\<rparr>\<rparr>)"

definition create4VarKMap :: "string list \<Rightarrow> nat list \<Rightarrow> nat list \<Rightarrow> jsError + kmapLayout" where
  "create4VarKMap vars ms dcs =
     (case fillSingle place4 (emptyGrid 4 4) ms dcs of
        Inl e \<Rightarrow> Inl e
      | Inr g \<Rightarrow> Inr \<lparr>grid = SingleMap g, rowLabels = grayCode, colLabels = grayCode,
                      rowVars = [varOpt vars 0, varOpt vars 1],
                      colVars = [varOpt vars 2, varOpt vars 3], mapLabels = None,
                      dims = \<lparr>dimRows = 4, dimCols = 4, dimMaps = None\<rparr>\<rparr>)"

definition create5VarKMap :: "string list \<Rightarrow> nat list \<Rightarrow> nat list \<Rightarrow> jsError + kmapLayout" where
  "create5VarKMap vars ms dcs =
     (case fillMulti place5 [emptyGrid 4 4, emptyGrid 4 4] ms dcs of
        Inl e \<Rightarrow> Inl e
      | Inr gs \<Rightarrow> Inr \<lparr>grid = MultiMap gs, rowLabels = grayCode, colLabels = grayCode,
                       rowVars = [varOpt vars 1, varOpt vars 2],
                       colVars = [varOpt vars 3, varOpt vars 4],
                       mapLabels = Some [varAt vars 0 @ ''=0'', varAt vars 0 @ ''=1''],
                       dims = \<lparr>dimRows = 4, dimCols = 4, dimMaps = Some 2\<rparr>\<rparr>)"

definition create6VarKMap :: "string list \<Rightarrow> nat list \<Rightarrow> nat list \<Rightarrow> jsError + kmapLayout" where
  "create6VarKMap vars ms dcs =
     (case fillMulti place6 [emptyGrid 4 4, emptyGrid 4 4, emptyGrid 4 4, emptyGrid 4 4]
             ms dcs of
        Inl e \<Rightarrow> Inl e
      | Inr gs \<Rightarrow> Inr \<lparr>grid = MultiMap gs, rowLabels = grayCode, colLabels = grayCode,
                       rowVars = [varOpt vars 2, varOpt vars 3],
                       colVars = [varOpt vars 4, varOpt vars 5],
                       mapLabels = Some [varAt vars 0 @ varAt vars 1 @ ''=00'',
                                         varAt vars 0 @ varAt vars 1 @ ''=01'',
                                         varAt vars 0 @ varAt vars 1 @ ''=11'',
                                         varAt vars 0 @ varAt vars 1 @ ''=10''],
                       dims = \<lparr>dimRows = 4, dimCols = 4, dimMaps = Some 4\<rparr>\<rparr>)"

text \<open>
  \<open>KarnaughMap.generate\<close>: the check of the variable count, the \<open>switch\<close>, and the
  layout returned together with the four fields of the truth table. (The source spreads
  the fields of the layout into the result; here the layout is one component of it.)
\<close>

record kmap = tableData +
  layout :: kmapLayout

definition generate :: "'a tableData_scheme \<Rightarrow> jsError + kmap" where
  "generate truthTable =
     (if numVars truthTable < 2 \<or> numVars truthTable > 6 then
        Inl (Error ''K-map supports 2-6 variables only'')
      else
        (case (if numVars truthTable = 2 then
                 create2VarKMap (variables truthTable) (mins truthTable) (dontCares truthTable)
               else if numVars truthTable = 3 then
                 create3VarKMap (variables truthTable) (mins truthTable) (dontCares truthTable)
               else if numVars truthTable = 4 then
                 create4VarKMap (variables truthTable) (mins truthTable) (dontCares truthTable)
               else if numVars truthTable = 5 then
                 create5VarKMap (variables truthTable) (mins truthTable) (dontCares truthTable)
               else
                 create6VarKMap (variables truthTable) (mins truthTable) (dontCares truthTable)) of
           Inl e \<Rightarrow> Inl e
         | Inr lay \<Rightarrow>
             Inr \<lparr>variables = variables truthTable, mins = mins truthTable,
                  numVars = numVars truthTable, dontCares = dontCares truthTable,
                  layout = lay\<rparr>))"


section \<open>Notions used to state the properties\<close>

text \<open>The three symbols of a cube.\<close>

definition triState :: "string \<Rightarrow> bool" where
  "triState s = (\<forall>c \<in> set s. c = CHR ''0'' \<or> c = CHR ''1'' \<or> c = CHR ''-'')"

text \<open>
  A cube covers an assignment, given as its binary string, when they have the same length
  and agree wherever the cube has no dash.
\<close>

definition covers :: "string \<Rightarrow> string \<Rightarrow> bool" where
  "covers cube bits = list_all2 (\<lambda>c b. c = CHR ''-'' \<or> c = b) cube bits"

text \<open>
  The reading of a sum-of-products string. The repository evaluates expressions by handing
  them to the JavaScript interpreter; here the notation gets its usual meaning. A sum is a
  list of products separated by \<open>+\<close> (blanks are ignored); a product is a sequence of
  literals, each a one-letter variable, complemented when a quote follows it, or one of the
  constants \<open>0\<close> and \<open>1\<close>. The value of the variable at position \<open>k\<close> of
  \<open>variables\<close> under assignment index \<open>i\<close> is the digit at position \<open>k\<close> of the
  binary string of \<open>i\<close>. The result is \<open>None\<close> when a product names an unknown
  variable.
\<close>

definition isLetter :: "char \<Rightarrow> bool" where
  "isLetter c = (c \<in> set ''ABCDEFGHIJKLMNOPQRSTUVWXYZabcdefghijklmnopqrstuvwxyz'')"

text \<open>Variable names that the reading above can tell apart: distinct single letters.\<close>

definition letterNames :: "string list \<Rightarrow> bool" where
  "letterNames vars \<longleftrightarrow> distinct vars \<and> (\<forall>v \<in> set vars. length v = 1 \<and> isLetter (hd v))"

definition varValue :: "string list \<Rightarrow> nat \<Rightarrow> char \<Rightarrow> bool option" where
  "varValue vars i c =
     (let k = indexOf vars [c]
      in if k < 0 then None else Some (binaryOf (length vars) i ! nat k = CHR ''1''))"

fun evalProduct :: "(char \<Rightarrow> bool option) \<Rightarrow> string \<Rightarrow> bool option" where
  "evalProduct env [] = Some True"
| "evalProduct env (c # rest) =
     (if c = CHR ''1'' then evalProduct env rest
      else if c = CHR ''0'' then map_option (\<lambda>r. False) (evalProduct env rest)
      else (case env c of
              None \<Rightarrow> None
            | Some v \<Rightarrow>
                (case rest of
                   [] \<Rightarrow> Some v
                 | q # rest' \<Rightarrow>
                     if q = CHR 0x27 then map_option (\<lambda>r. \<not> v \<and> r) (evalProduct env rest')
                     else map_option (\<lambda>r. v \<and> r) (evalProduct env rest))))"

fun splitSum :: "string \<Rightarrow> string list" where
  "splitSum [] = [[]]"
| "splitSum (c # rest) =
     (if c = CHR ''+'' then [] # splitSum rest
      else if c = CHR '' '' then splitSum rest
      else (case splitSum rest of [] \<Rightarrow> [[c]] | p # ps \<Rightarrow> (c # p) # ps))"

definition evalSOP :: "string list \<Rightarrow> string \<Rightarrow> nat \<Rightarrow> bool option" where
  "evalSOP vars s i =
     (let vals = map (evalProduct (varValue vars i)) (splitSum s)
      in if None \<in> set vals then None else Some (Some True \<in> set vals))"


text \<open>The cost of a cube: the number of its positions that are not a dash.\<close>

definition literalCount :: "string \<Rightarrow> nat" where
  "literalCount cube = length (filter (\<lambda>c. c \<noteq> CHR ''-'') cube)"











section \<open>Invariants of the tabulation\<close>

text \<open>
  What holds of the state \<open>(terms, newTerms)\<close> throughout a pass over the array
  \<open>terms\<close>: the objects of \<open>terms\<close> change in their marks only, every new term
  is the merge of two terms of the pass, unmarked, and the new terms are numbered from
  \<open>fresh\<close> on.
\<close>

definition passShape :: "implicant list \<Rightarrow> nat \<Rightarrow> implicant list \<times> implicant list \<Rightarrow> bool" where
  "passShape terms fresh st \<longleftrightarrow>
     map (\<lambda>t. t\<lparr>used := False\<rparr>) (fst st) = map (\<lambda>t. t\<lparr>used := False\<rparr>) terms \<and>
     (\<forall>t \<in> set (snd st). \<exists>t1 \<in> set terms. \<exists>t2 \<in> set terms.
         combineBinary (binary t1) (binary t2) = Some (binary t) \<and>
         minterms t = uniq (minterms t1 @ minterms t2) \<and> \<not> used t) \<and>
     map oid (snd st) = [fresh..<fresh + length (snd st)]"

text \<open>
  Every marked term of the pass has been merged, on one side or the other, into one of the
  new terms.
\<close>

definition passMarks :: "implicant list \<Rightarrow> implicant list \<times> implicant list \<Rightarrow> bool" where
  "passMarks terms st \<longleftrightarrow>
     (\<forall>t \<in> set (fst st). used t \<longrightarrow>
        (\<exists>u \<in> set terms. \<exists>t' \<in> set (snd st).
           combineBinary (binary t) (binary u) = Some (binary t') \<or>
           combineBinary (binary u) (binary t) = Some (binary t')))"

text \<open>
  A well-formed term for \<open>n\<close> variables: a cube of length \<open>n\<close> whose list of
  minterms holds exactly the indices it covers.
\<close>

definition wellFormed :: "nat \<Rightarrow> implicant \<Rightarrow> bool" where
  "wellFormed n t \<longleftrightarrow>
     length (binary t) = n \<and> triState (binary t) \<and>
     set (minterms t) = {i. i < 2 ^ n \<and> covers (binary t) (binaryOf n i)}"

text \<open>Objects with the same identity are the same object.\<close>

definition oidInjective :: "implicant set \<Rightarrow> bool" where
  "oidInjective S \<longleftrightarrow> (\<forall>x \<in> S. \<forall>y \<in> S. oid x = oid y \<longrightarrow> x = y)"

text \<open>Some implicant of the list has the minterm in its cover set.\<close>

definition coveredBy :: "implicant set \<Rightarrow> nat \<Rightarrow> bool" where
  "coveredBy S m \<longleftrightarrow> (\<exists>p \<in> S. m \<in> set (minterms p))"

text \<open>The literal that \<open>convertToSOP\<close> prints for position \<open>k\<close> of a cube.\<close>

definition sopLiteral :: "string list \<Rightarrow> string \<Rightarrow> nat \<Rightarrow> string" where
  "sopLiteral vars b k =
     (if b ! k = CHR ''1'' then varAt vars k
      else if b ! k = CHR ''0'' then varAt vars k @ [CHR 0x27]
      else [])"

section \<open>Properties of the cube model\<close>

lemma combineScan_char:
  assumes "length a = length b" "\<forall>i \<in> set is. i < length a"
  shows "combineScan a b is (d, p) =
     (if \<exists>i \<in> set is. a ! i \<noteq> b ! i \<and> (a ! i = CHR ''-'' \<or> b ! i = CHR ''-'') then None
      else Some (d + length (filter (\<lambda>i. a ! i \<noteq> b ! i) is),
                 if filter (\<lambda>i. a ! i \<noteq> b ! i) is = [] then p
                 else int (last (filter (\<lambda>i. a ! i \<noteq> b ! i) is))))"
  using assms
proof (induction "is" arbitrary: d p)
  case Nil
  then show ?case by simp
next
  case (Cons i "is")
  from Cons.prems have i: "i < length a" "i < length b" by auto
  from Cons.prems have rest: "\<forall>i \<in> set is. i < length a" by simp
  show ?case
    using Cons.IH [OF Cons.prems(1) rest] i
    by (auto simp: charAt_def)
qed

lemma filter_single:
  assumes "i < n" "\<And>j. j < n \<Longrightarrow> P j \<longleftrightarrow> j = i"
  shows "filter P [0..<n] = [i]"
proof -
  have "filter P [0..<n] = filter (\<lambda>j. j = i) [0..<n]"
    using assms(2) by (intro filter_cong) auto
  also have "\<dots> = [i]"
    using assms(1) by (induction n) auto
  finally show ?thesis .
qed

lemma single_filter:
  assumes "length (filter P [0..<n]) = 1"
  shows "\<exists>i. filter P [0..<n] = [i] \<and> i < n \<and> P i \<and> (\<forall>j. j < n \<longrightarrow> P j \<longrightarrow> j = i)"
proof -
  from assms obtain i where fi: "filter P [0..<n] = [i]"
    by (cases "filter P [0..<n]") auto
  then have "set (filter P [0..<n]) = {i}" by simp
  then have "i < n" "P i" "\<And>j. j < n \<Longrightarrow> P j \<Longrightarrow> j = i" by auto
  with fi show ?thesis by blast
qed

text \<open>
  On strings of equal length, \<open>combineBinary\<close> succeeds exactly when the strings differ
  at a single position and neither has a dash there; the result is the first string with
  a dash at that position.
\<close>

lemma combineBinary_iff:
  assumes len: "length a = length b"
  shows "combineBinary a b = Some c \<longleftrightarrow>
     (\<exists>i<length a. a ! i \<noteq> b ! i \<and> a ! i \<noteq> CHR ''-'' \<and> b ! i \<noteq> CHR ''-'' \<and>
        (\<forall>j<length a. j \<noteq> i \<longrightarrow> a ! j = b ! j) \<and> c = a[i := CHR ''-''])"
    (is "?L \<longleftrightarrow> ?R")
proof
  let ?D = "filter (\<lambda>i. a ! i \<noteq> b ! i) [0..<length a]"
  have scan: "combineScan a b [0..<length a] (0, -1) =
     (if \<exists>i \<in> set [0..<length a]. a ! i \<noteq> b ! i \<and> (a ! i = CHR ''-'' \<or> b ! i = CHR ''-'') then None
      else Some (0 + length ?D, if ?D = [] then -1 else int (last ?D)))"
    by (rule combineScan_char [OF len]) simp
  {
    assume ?L
    then have nodash: "\<not> (\<exists>i \<in> set [0..<length a]. a ! i \<noteq> b ! i \<and> (a ! i = CHR ''-'' \<or> b ! i = CHR ''-''))"
      and one: "length ?D = 1"
      and c: "c = take (nat (if ?D = [] then -1 else int (last ?D))) a @ ''-'' @
                  drop (nat (if ?D = [] then -1 else int (last ?D)) + 1) a"
      unfolding combineBinary_def scan by (auto split: if_splits)
    from one obtain i where i: "?D = [i]" "i < length a" "a ! i \<noteq> b ! i"
      "\<And>j. j < length a \<Longrightarrow> a ! j \<noteq> b ! j \<Longrightarrow> j = i"
      using single_filter [OF one] by blast
    have "c = take i a @ CHR ''-'' # drop (Suc i) a"
      unfolding c i(1) by simp
    then have "c = a[i := CHR ''-'']"
      using upd_conv_take_nth_drop [OF i(2), of "CHR ''-''"] by simp
    moreover from nodash i(2,3) have "a ! i \<noteq> CHR ''-''" "b ! i \<noteq> CHR ''-''" by auto
    moreover from i(4) have "\<forall>j<length a. j \<noteq> i \<longrightarrow> a ! j = b ! j" by blast
    ultimately show ?R using i(2,3) by blast
  }
  {
    assume ?R
    then obtain i where i: "i < length a" "a ! i \<noteq> b ! i" "a ! i \<noteq> CHR ''-''" "b ! i \<noteq> CHR ''-''"
      "\<forall>j<length a. j \<noteq> i \<longrightarrow> a ! j = b ! j" "c = a[i := CHR ''-'']" by blast
    have D: "?D = [i]"
      using i by (intro filter_single) auto
    have nodash: "\<not> (\<exists>i \<in> set [0..<length a]. a ! i \<noteq> b ! i \<and> (a ! i = CHR ''-'' \<or> b ! i = CHR ''-''))"
      using i by auto
    have "c = take i a @ CHR ''-'' # drop (Suc i) a"
      using upd_conv_take_nth_drop [OF i(1), of "CHR ''-''"] i(6) by simp
    then show ?L
      unfolding combineBinary_def scan using nodash D
      by simp
  }
qed

lemma combineBinary_sym:
  assumes len: "length a = length b"
  shows "combineBinary b a = combineBinary a b"
proof -
  have dir: "combineBinary y x = Some c" if "combineBinary x y = Some c" "length x = length y" for x y c
  proof -
    from that obtain i where i: "i < length x" "x ! i \<noteq> y ! i" "x ! i \<noteq> CHR ''-''" "y ! i \<noteq> CHR ''-''"
      "\<forall>j<length x. j \<noteq> i \<longrightarrow> x ! j = y ! j" "c = x[i := CHR ''-'']"
      using combineBinary_iff [of x y c] by blast
    have "x[i := CHR ''-''] = y[i := CHR ''-'']"
      using i(1,5) that(2) by (auto simp: list_eq_iff_nth_eq nth_list_update)
    with i that(2) have "\<exists>i<length y. y ! i \<noteq> x ! i \<and> y ! i \<noteq> CHR ''-'' \<and> x ! i \<noteq> CHR ''-'' \<and>
        (\<forall>j<length y. j \<noteq> i \<longrightarrow> y ! j = x ! j) \<and> c = y[i := CHR ''-'']"
      by (intro exI [of _ i]) auto
    then show ?thesis
      using combineBinary_iff [of y x c] that(2) by simp
  qed
  show ?thesis
  proof (cases "combineBinary a b")
    case None
    then show ?thesis
      using dir [of b a] len by (cases "combineBinary b a") auto
  next
    case (Some c)
    then show ?thesis using dir [of a b c] len by simp
  qed
qed

text \<open>
  Claim C5. For tri-state pattern strings of equal length, \<open>combineBinary\<close> returns a
  merged cube if and only if the strings differ in exactly one position and neither has a
  dash there (so one has \<open>0\<close> and the other \<open>1\<close>); the merged cube is the first string
  with that position replaced by a dash and every other position unchanged; and the
  result does not depend on the order of the arguments.
\<close>

theorem combineBinary_merge:
  assumes "length a = length b" "triState a" "triState b"
  shows "(combineBinary a b \<noteq> None \<longleftrightarrow>
            (\<exists>i<length a. a ! i \<noteq> b ! i \<and> (\<forall>j<length a. a ! j \<noteq> b ! j \<longrightarrow> j = i) \<and>
               a ! i \<noteq> CHR ''-'' \<and> b ! i \<noteq> CHR ''-'')) \<and>
         (\<forall>c. combineBinary a b = Some c \<longrightarrow>
            (\<exists>i<length a. {a ! i, b ! i} = {CHR ''0'', CHR ''1''} \<and> c = a[i := CHR ''-''] \<and>
               (\<forall>j<length a. j \<noteq> i \<longrightarrow> a ! j = b ! j \<and> c ! j = a ! j))) \<and>
         combineBinary b a = combineBinary a b"
proof (intro conjI allI impI)
  show "combineBinary b a = combineBinary a b"
    by (rule combineBinary_sym [OF assms(1)])
next
  show "combineBinary a b \<noteq> None \<longleftrightarrow>
            (\<exists>i<length a. a ! i \<noteq> b ! i \<and> (\<forall>j<length a. a ! j \<noteq> b ! j \<longrightarrow> j = i) \<and>
               a ! i \<noteq> CHR ''-'' \<and> b ! i \<noteq> CHR ''-'')"
  proof
    assume "combineBinary a b \<noteq> None"
    then obtain c where "combineBinary a b = Some c" by auto
    then obtain i where "i < length a" "a ! i \<noteq> b ! i" "a ! i \<noteq> CHR ''-''" "b ! i \<noteq> CHR ''-''"
      "\<forall>j<length a. j \<noteq> i \<longrightarrow> a ! j = b ! j"
      using combineBinary_iff [OF assms(1), of c] by blast
    then show "\<exists>i<length a. a ! i \<noteq> b ! i \<and> (\<forall>j<length a. a ! j \<noteq> b ! j \<longrightarrow> j = i) \<and>
               a ! i \<noteq> CHR ''-'' \<and> b ! i \<noteq> CHR ''-''"
      by blast
  next
    assume "\<exists>i<length a. a ! i \<noteq> b ! i \<and> (\<forall>j<length a. a ! j \<noteq> b ! j \<longrightarrow> j = i) \<and>
               a ! i \<noteq> CHR ''-'' \<and> b ! i \<noteq> CHR ''-''"
    then obtain i where "i < length a" "a ! i \<noteq> b ! i" "a ! i \<noteq> CHR ''-''" "b ! i \<noteq> CHR ''-''"
      "\<forall>j<length a. j \<noteq> i \<longrightarrow> a ! j = b ! j"
      by blast
    then have "combineBinary a b = Some (a[i := CHR ''-''])"
      using combineBinary_iff [OF assms(1), of "a[i := CHR ''-'']"] by blast
    then show "combineBinary a b \<noteq> None" by simp
  qed
next
  fix c
  assume "combineBinary a b = Some c"
  then obtain i where i: "i < length a" "a ! i \<noteq> b ! i" "a ! i \<noteq> CHR ''-''" "b ! i \<noteq> CHR ''-''"
      "\<forall>j<length a. j \<noteq> i \<longrightarrow> a ! j = b ! j" "c = a[i := CHR ''-'']"
    using combineBinary_iff [OF assms(1), of c] by blast
  from i(1) assms have "a ! i \<in> set a" "b ! i \<in> set b" by auto
  with assms(2,3) i(3,4) have "a ! i = CHR ''0'' \<or> a ! i = CHR ''1''" "b ! i = CHR ''0'' \<or> b ! i = CHR ''1''"
    unfolding triState_def by auto
  with i(2) have "{a ! i, b ! i} = {CHR ''0'', CHR ''1''}"
    by auto
  moreover have "\<forall>j<length a. j \<noteq> i \<longrightarrow> a ! j = b ! j \<and> c ! j = a ! j"
    using i(5,6) by simp
  ultimately show "\<exists>i<length a. {a ! i, b ! i} = {CHR ''0'', CHR ''1''} \<and> c = a[i := CHR ''-''] \<and>
               (\<forall>j<length a. j \<noteq> i \<longrightarrow> a ! j = b ! j \<and> c ! j = a ! j)"
    using i(1,6) by blast
qed

theorem combineBinary_merge_witness:
  "length ''1010'' = length ''1011'' \<and> triState ''1010'' \<and> triState ''1011'' \<and>
   combineBinary ''1010'' ''1011'' \<noteq> None \<and>
   combineBinary ''1011'' ''1010'' = combineBinary ''1010'' ''1011''"
proof -
  have h1: "length ''1010'' = length ''1011''" by simp
  have h2: "triState ''1010''" by (simp add: triState_def)
  have h3: "triState ''1011''" by (simp add: triState_def)
  have ex: "\<exists>i<length ''1010''. ''1010'' ! i \<noteq> ''1011'' ! i \<and>
      (\<forall>j<length ''1010''. ''1010'' ! j \<noteq> ''1011'' ! j \<longrightarrow> j = i) \<and>
      ''1010'' ! i \<noteq> CHR ''-'' \<and> ''1011'' ! i \<noteq> CHR ''-''"
    by (rule exI [of _ 3]) (simp add: less_Suc_eq nth_Cons')
  from combineBinary_merge [OF h1 h2 h3] ex
  have "combineBinary ''1010'' ''1011'' \<noteq> None"
    and "combineBinary ''1011'' ''1010'' = combineBinary ''1010'' ''1011''"
    by blast+
  with h1 h2 h3 show ?thesis by blast
qed

section \<open>Termination of prime implicant generation\<close>

lemma qmLoop_passes:
  "snd (snd (qmLoop n it fresh ts ps k)) \<le> k + (n - it)"
proof (induction n it fresh ts ps k rule: qmLoop.induct)
  case (1 n it fresh ts ps k)
  show ?case
  proof (cases "it < n")
    case False
    then show ?thesis by (simp add: qmLoop.simps)
  next
    case True
    obtain ts' nts where mp: "mergePass fresh ts = (ts', nts)" by (cases "mergePass fresh ts")
    show ?thesis
    proof (cases "length nts = 0")
      case True
      with \<open>it < n\<close> mp show ?thesis
        by (subst qmLoop.simps) simp
    next
      case False
      have "snd (snd (qmLoop n (it + 1) (fresh + length nts) nts
                (ps @ filter (\<lambda>term. \<not> used term) ts') (k + 1))) \<le> (k + 1) + (n - (it + 1))"
        using "1.IH" [OF \<open>it < n\<close> mp [symmetric] refl refl False] .
      with \<open>it < n\<close> mp False show ?thesis
        by (subst qmLoop.simps) simp
    qed
  qed
qed

text \<open>
  Claim C9. The loop of \<open>quineMcCluskey\<close> terminates (\<open>qmLoop\<close> is a total function:
  each pass that does not stop the loop increases \<open>iteration\<close>, which is bounded by
  \<open>numVars\<close>), and it executes its body at most \<open>numVars\<close> times.
\<close>

theorem quineMcCluskey_passes_bounded:
  "quineMcCluskeyPasses ms n \<le> n"
  using qmLoop_passes [of n 0 "length ms" "initialTerms ms n" "[]" 0]
  by (simp add: quineMcCluskeyPasses_def)

section \<open>Duplicates in the list of prime implicants\<close>

text \<open>
  Claim C3 says that no two entries of the list returned by \<open>quineMcCluskey\<close> have the
  same pattern. When the loop ends by its \<open>break\<close>, the terms of the last pass have
  been added inside the loop and are added again after it: for the minterms \<open>0, 1, 2\<close>
  of two variables each of the two prime implicants is listed twice.
\<close>

theorem quineMcCluskey_lists_twice:
  "map binary (quineMcCluskey [0, 1, 2] 2) = [''0-'', ''-0'', ''0-'', ''-0'']"
  by code_simp

section \<open>The constant cases of \<open>simplify\<close>\<close>

text \<open>
  Claim C8. \<open>simplify\<close> tests the two constant cases first: with no required minterm it
  returns \<open>0\<close> as the sum and \<open>1\<close> as the product, with empty lists of implicants; with
  the required minterms being all of the \<open>2 ^ numVars\<close> indices (each listed once) it
  returns \<open>1\<close> and \<open>0\<close>, with empty lists of implicants.
\<close>

theorem simplify_constant_cases:
  "(mins k = [] \<longrightarrow>
      simplify k = \<lparr>sop = ''0'', pos = ''1'', primeImplicants = [],
                    essentialPrimeImplicants = [], groups = None\<rparr>) \<and>
   (distinct (mins k) \<and> set (mins k) = {0..<2 ^ numVars k} \<longrightarrow>
      simplify k = \<lparr>sop = ''1'', pos = ''0'', primeImplicants = [],
                    essentialPrimeImplicants = [], groups = None\<rparr>)"
proof (intro conjI impI)
  assume "mins k = []"
  then show "simplify k = \<lparr>sop = ''0'', pos = ''1'', primeImplicants = [],
                    essentialPrimeImplicants = [], groups = None\<rparr>"
    by (simp add: simplify_def)
next
  assume full: "distinct (mins k) \<and> set (mins k) = {0..<2 ^ numVars k}"
  then have "length (mins k) = card {0..<(2::nat) ^ numVars k}"
    using distinct_card [of "mins k"] by simp
  then have len: "length (mins k) = 2 ^ numVars k" by simp
  then have "length (mins k) \<noteq> 0" by simp
  with len show "simplify k = \<lparr>sop = ''1'', pos = ''0'', primeImplicants = [],
                    essentialPrimeImplicants = [], groups = None\<rparr>"
    by (simp add: simplify_def)
qed

theorem simplify_constant_cases_witness:
  "simplify \<lparr>variables = [''A'', ''B''], mins = [], numVars = 2, dontCares = []\<rparr>
     = \<lparr>sop = ''0'', pos = ''1'', primeImplicants = [], essentialPrimeImplicants = [], groups = None\<rparr> \<and>
   simplify \<lparr>variables = [''A'', ''B''], mins = [0, 1, 2, 3], numVars = 2, dontCares = []\<rparr>
     = \<lparr>sop = ''1'', pos = ''0'', primeImplicants = [], essentialPrimeImplicants = [], groups = None\<rparr>"
proof -
  have full: "set [0, 1, 2, 3] = {0..<(2::nat) ^ 2}"
    by (auto simp: atLeastLessThan_def)
  show ?thesis
    using simplify_constant_cases [of "\<lparr>variables = [''A'', ''B''], mins = [], numVars = 2, dontCares = []\<rparr>"]
          simplify_constant_cases [of "\<lparr>variables = [''A'', ''B''], mins = [0, 1, 2, 3], numVars = 2, dontCares = []\<rparr>"]
          full
    by simp
qed

section \<open>The classification of rows by \<open>generateFromOutputs\<close>\<close>

lemma outputs_fold:
  "foldl (outputsStep vs outs dcs) (rws, a, b, c) xs =
     (rws @ map (\<lambda>i. \<lparr>rowIndex = i,
                       rowInputs = inputValues vs (binaryOf (length vs) i),
                       rowOutput = (if outs ! i = JStr ''X'' \<or> i \<in> set dcs then OutX
                                    else if truthy (outs ! i) then Out 1 else Out 0),
                       rowBinary = binaryOf (length vs) i,
                       isDontCare = (outs ! i = JStr ''X'' \<or> i \<in> set dcs)\<rparr>) xs,
      a @ filter (\<lambda>i. \<not> (outs ! i = JStr ''X'' \<or> i \<in> set dcs) \<and> truthy (outs ! i)) xs,
      b @ filter (\<lambda>i. \<not> (outs ! i = JStr ''X'' \<or> i \<in> set dcs) \<and> \<not> truthy (outs ! i)) xs,
      c @ filter (\<lambda>i. outs ! i = JStr ''X'' \<or> i \<in> set dcs) xs)"
proof (induction xs arbitrary: rws a b c)
  case Nil
  show ?case by simp
next
  case (Cons x xs)
  show ?case
    by (simp add: outputsStep_def [of vs outs dcs _ x] Let_def Cons.IH)
qed

text \<open>
  Claim C10. With \<open>2 ^ n\<close> outputs for \<open>n\<close> variables, \<open>generateFromOutputs\<close>
  returns lists of minterms, maxterms and don't-cares that are pairwise disjoint and hold
  every index below \<open>2 ^ n\<close> exactly once; an index of the argument \<open>dontCares\<close> is
  classified as a don't-care, with output \<open>X\<close> in its row, whatever \<open>outputs\<close> holds
  for it.
\<close>

theorem generateFromOutputs_partition:
  assumes "length outs = 2 ^ length vs"
  shows "\<exists>tt. generateFromOutputs vs outs dcs = Inr tt \<and>
           distinct (mins tt @ maxterms tt @ dontCares tt) \<and>
           set (mins tt @ maxterms tt @ dontCares tt) = {0..<2 ^ length vs} \<and>
           (\<forall>i<2 ^ length vs. i \<in> set dcs \<longrightarrow>
              i \<in> set (dontCares tt) \<and> i \<notin> set (mins tt) \<and> i \<notin> set (maxterms tt) \<and>
              rowOutput (rows tt ! i) = OutX \<and> isDontCare (rows tt ! i))"
proof -
  let ?N = "(2::nat) ^ length vs"
  let ?dc = "\<lambda>i. outs ! i = JStr ''X'' \<or> i \<in> set dcs"
  let ?row = "\<lambda>i. \<lparr>rowIndex = i,
                       rowInputs = inputValues vs (binaryOf (length vs) i),
                       rowOutput = (if ?dc i then OutX
                                    else if truthy (outs ! i) then Out 1 else Out 0),
                       rowBinary = binaryOf (length vs) i,
                       isDontCare = ?dc i\<rparr>"
  let ?tt = "\<lparr>variables = vs,
              mins = filter (\<lambda>i. \<not> ?dc i \<and> truthy (outs ! i)) [0..<?N],
              numVars = length vs,
              dontCares = filter ?dc [0..<?N],
              rows = map ?row [0..<?N],
              maxterms = filter (\<lambda>i. \<not> ?dc i \<and> \<not> truthy (outs ! i)) [0..<?N]\<rparr>"
  have res: "generateFromOutputs vs outs dcs = Inr ?tt"
    using assms
    by (simp add: generateFromOutputs_def Let_def outputs_fold [of vs outs dcs "[]" "[]" "[]" "[]", simplified])
  have d: "distinct (mins ?tt @ maxterms ?tt @ dontCares ?tt)"
    by auto
  have s: "set (mins ?tt @ maxterms ?tt @ dontCares ?tt) = {0..<?N}"
    by auto
  have x: "\<forall>i<?N. i \<in> set dcs \<longrightarrow>
              i \<in> set (dontCares ?tt) \<and> i \<notin> set (mins ?tt) \<and> i \<notin> set (maxterms ?tt) \<and>
              rowOutput (rows ?tt ! i) = OutX \<and> isDontCare (rows ?tt ! i)"
    by simp
  from res d s x show ?thesis by blast
qed

theorem generateFromOutputs_partition_witness:
  "length [JNum 0, JNum 1, JNum 1, JNum 0] = 2 ^ length [''A'', ''B''] \<and>
   (\<exists>tt. generateFromOutputs [''A'', ''B''] [JNum 0, JNum 1, JNum 1, JNum 0] [1] = Inr tt \<and>
      distinct (mins tt @ maxterms tt @ dontCares tt) \<and>
      set (mins tt @ maxterms tt @ dontCares tt) = {0..<2 ^ length [''A'', ''B'']} \<and>
      (\<forall>i<2 ^ length [''A'', ''B'']. i \<in> set [1] \<longrightarrow>
         i \<in> set (dontCares tt) \<and> i \<notin> set (mins tt) \<and> i \<notin> set (maxterms tt) \<and>
         rowOutput (rows tt ! i) = OutX \<and> isDontCare (rows tt ! i)))"
proof -
  have h: "length [JNum 0, JNum 1, JNum 1, JNum 0] = 2 ^ length [''A'', ''B'']" by simp
  from generateFromOutputs_partition [OF h, of "[1]"] h show ?thesis by blast
qed

section \<open>What the entry points validate\<close>

lemma forEachE_TypeError:
  assumes "\<And>s x e. f s x = Inl e \<Longrightarrow> e = TypeError"
  shows "forEachE f s xs = Inl e \<Longrightarrow> e = TypeError"
proof (induction xs arbitrary: s)
  case Nil
  then show ?case by simp
next
  case (Cons x xs)
  show ?case
  proof (cases "f s x")
    case (Inl e')
    with Cons.prems assms [of s x e'] show ?thesis by simp
  next
    case (Inr s')
    with Cons.prems Cons.IH [of s'] show ?thesis by simp
  qed
qed

lemma setCell_TypeError: "setCell g r c v = Inl e \<Longrightarrow> e = TypeError"
  by (auto simp: setCell_def split: if_splits)

lemma setCellIn_TypeError: "setCellIn gs t r c v = Inl e \<Longrightarrow> e = TypeError"
  by (auto simp: setCellIn_def split: if_splits sum.splits dest: setCell_TypeError)

lemma fillSingle_TypeError:
  assumes "fillSingle place g ms dcs = Inl e"
  shows "e = TypeError"
proof -
  have step: "(case place x of (row, col) \<Rightarrow> setCell s row col v) = Inl e' \<Longrightarrow> e' = TypeError"
    for v s x e'
    by (auto split: prod.splits dest: setCell_TypeError)
  let ?f = "\<lambda>v g m. case place m of (row, col) \<Rightarrow> setCell g row col v"
  show ?thesis
  proof (cases "forEachE (?f C1) g ms")
    case (Inl e')
    with assms have "e' = e" by (simp add: fillSingle_def)
    with Inl forEachE_TypeError [of "?f C1" g ms e] step show ?thesis by blast
  next
    case (Inr g')
    with assms have "forEachE (?f CX) g' dcs = Inl e" by (simp add: fillSingle_def)
    with forEachE_TypeError [of "?f CX" g' dcs e] step show ?thesis by blast
  qed
qed

lemma fillMulti_TypeError:
  assumes "fillMulti place gs ms dcs = Inl e"
  shows "e = TypeError"
proof -
  have step: "(case place x of (mapIndex, row, col) \<Rightarrow> setCellIn s mapIndex row col v) = Inl e'
      \<Longrightarrow> e' = TypeError" for v s x e'
    by (auto split: prod.splits dest: setCellIn_TypeError)
  let ?f = "\<lambda>v gs m. case place m of (mapIndex, row, col) \<Rightarrow> setCellIn gs mapIndex row col v"
  show ?thesis
  proof (cases "forEachE (?f C1) gs ms")
    case (Inl e')
    with assms have "e' = e" by (simp add: fillMulti_def)
    with Inl forEachE_TypeError [of "?f C1" gs ms e] step show ?thesis by blast
  next
    case (Inr gs')
    with assms have "forEachE (?f CX) gs' dcs = Inl e" by (simp add: fillMulti_def)
    with forEachE_TypeError [of "?f CX" gs' dcs e] step show ?thesis by blast
  qed
qed

lemma create_TypeError:
  "create2VarKMap vs ms dcs = Inl e \<Longrightarrow> e = TypeError"
  "create3VarKMap vs ms dcs = Inl e \<Longrightarrow> e = TypeError"
  "create4VarKMap vs ms dcs = Inl e \<Longrightarrow> e = TypeError"
  "create5VarKMap vs ms dcs = Inl e \<Longrightarrow> e = TypeError"
  "create6VarKMap vs ms dcs = Inl e \<Longrightarrow> e = TypeError"
  by (auto simp: create2VarKMap_def create3VarKMap_def create4VarKMap_def create5VarKMap_def
        create6VarKMap_def split: sum.splits dest: fillSingle_TypeError fillMulti_TypeError)

text \<open>
  Claim C7 says that a request fails with a validation error whenever an index is out of
  range or the two index sets overlap. \<open>generate\<close> checks the variable count only: for
  three variables it accepts the minterm \<open>8\<close> (whose column is not found, so no cell
  changes), and for two variables it accepts the index \<open>1\<close> given both as a minterm
  and as a don't-care (the cell ends as \<open>X\<close>).
\<close>

theorem generate_accepts_bad_indices:
  "generate \<lparr>variables = [''A'', ''B'', ''C''], mins = [8], numVars = 3, dontCares = []\<rparr> =
     Inr \<lparr>variables = [''A'', ''B'', ''C''], mins = [8], numVars = 3, dontCares = [],
          layout = \<lparr>grid = SingleMap [[C0, C0, C0, C0], [C0, C0, C0, C0]],
                    rowLabels = [''0'', ''1''], colLabels = [''00'', ''01'', ''11'', ''10''],
                    rowVars = [Some ''A''], colVars = [Some ''B'', Some ''C''], mapLabels = None,
                    dims = \<lparr>dimRows = 2, dimCols = 4, dimMaps = None\<rparr>\<rparr>\<rparr> \<and>
   generate \<lparr>variables = [''A'', ''B''], mins = [0, 1], numVars = 2, dontCares = [1]\<rparr> =
     Inr \<lparr>variables = [''A'', ''B''], mins = [0, 1], numVars = 2, dontCares = [1],
          layout = \<lparr>grid = SingleMap [[C1, CX], [C0, C0]],
                    rowLabels = [''0'', ''1''], colLabels = [''0'', ''1''],
                    rowVars = [Some ''A''], colVars = [Some ''B''], mapLabels = None,
                    dims = \<lparr>dimRows = 2, dimCols = 2, dimMaps = None\<rparr>\<rparr>\<rparr>"
  by code_simp

text \<open>
  Claim C7, amended. \<open>generate\<close> raises its validation error exactly when the variable
  count is outside \<open>2..6\<close>, and \<open>generateFromOutputs\<close> raises its validation error
  exactly when the number of outputs is not \<open>2 ^ n\<close> for the \<open>n\<close> variables given.
  Neither checks the range of an index or the overlap of the two index sets.
\<close>

theorem validation_errors:
  "((\<exists>msg. generate tt = Inl (Error msg)) \<longleftrightarrow> (numVars tt < 2 \<or> 6 < numVars tt)) \<and>
   ((\<exists>msg. generateFromOutputs vs outs dcs = Inl (Error msg)) \<longleftrightarrow> length outs \<noteq> 2 ^ length vs)"
proof
  show "(\<exists>msg. generate tt = Inl (Error msg)) \<longleftrightarrow> (numVars tt < 2 \<or> 6 < numVars tt)"
  proof
    assume "\<exists>msg. generate tt = Inl (Error msg)"
    then obtain msg where g: "generate tt = Inl (Error msg)" ..
    show "numVars tt < 2 \<or> 6 < numVars tt"
    proof (rule ccontr)
      assume "\<not> (numVars tt < 2 \<or> 6 < numVars tt)"
      with g have "Error msg = TypeError"
        unfolding generate_def
        by (auto split: if_splits sum.splits dest: create_TypeError)
      then show False by simp
    qed
  next
    assume "numVars tt < 2 \<or> 6 < numVars tt"
    then show "\<exists>msg. generate tt = Inl (Error msg)"
      by (auto simp: generate_def)
  qed
next
  show "(\<exists>msg. generateFromOutputs vs outs dcs = Inl (Error msg)) \<longleftrightarrow> length outs \<noteq> 2 ^ length vs"
    by (auto simp: generateFromOutputs_def Let_def split: prod.splits)
qed

section \<open>Adjacency on the grid\<close>









section \<open>The greedy completion\<close>

text \<open>
  The \<open>forEach\<close> of the greedy loop keeps the first implicant, in the order of the
  list, among the eligible ones of greatest coverage.
\<close>

lemma pickBest_fold:
  fixes ess add :: "implicant list" and unc :: "nat list"
  defines "step \<equiv> (\<lambda>(bestPI, maxCoverage) pi.
            if \<not> includesObj ess pi \<and> \<not> includesObj add pi then
              (let coverage = coverageCount pi unc
               in if coverage > maxCoverage then (Some pi, coverage) else (bestPI, maxCoverage))
            else (bestPI, maxCoverage))"
  shows "(\<forall>q \<in> set ps. \<not> includesObj ess q \<and> \<not> includesObj add q \<longrightarrow>
            coverageCount q unc \<le> snd (foldl step (None, 0) ps)) \<and>
         (fst (foldl step (None, 0) ps) = None \<longrightarrow> snd (foldl step (None, 0) ps) = 0) \<and>
         (\<forall>p. fst (foldl step (None, 0) ps) = Some p \<longrightarrow>
            (\<exists>i<length ps. ps ! i = p \<and> \<not> includesObj ess p \<and> \<not> includesObj add p \<and>
               coverageCount p unc = snd (foldl step (None, 0) ps) \<and>
               0 < coverageCount p unc \<and>
               (\<forall>j<i. \<not> includesObj ess (ps ! j) \<and> \<not> includesObj add (ps ! j) \<longrightarrow>
                  coverageCount (ps ! j) unc < coverageCount p unc)))"
proof (induction ps rule: rev_induct)
  case Nil
  show ?case by simp
next
  case (snoc x ps)
  obtain b mx where st: "foldl step (None, 0) ps = (b, mx)" by (cases "foldl step (None, 0) ps")
  note IH = snoc.IH [unfolded st fst_conv snd_conv]
  from IH have le: "\<And>q. q \<in> set ps \<Longrightarrow> \<not> includesObj ess q \<Longrightarrow> \<not> includesObj add q \<Longrightarrow>
      coverageCount q unc \<le> mx" by blast
  from IH have none: "b = None \<Longrightarrow> mx = 0" by blast
  from IH have some: "\<And>p. b = Some p \<Longrightarrow> \<exists>i<length ps. ps ! i = p \<and> \<not> includesObj ess p \<and>
      \<not> includesObj add p \<and> coverageCount p unc = mx \<and> 0 < coverageCount p unc \<and>
      (\<forall>j<i. \<not> includesObj ess (ps ! j) \<and> \<not> includesObj add (ps ! j) \<longrightarrow>
          coverageCount (ps ! j) unc < coverageCount p unc)" by blast
  show ?case
  proof (cases "\<not> includesObj ess x \<and> \<not> includesObj add x \<and> mx < coverageCount x unc")
    case True
    have "foldl step (None, 0) (ps @ [x]) = step (b, mx) x"
      by (simp add: st)
    also have "\<dots> = (Some x, coverageCount x unc)"
      using True by (simp add: step_def)
    finally have new: "foldl step (None, 0) (ps @ [x]) = (Some x, coverageCount x unc)" .
    have earlier: "\<forall>j<length ps. \<not> includesObj ess ((ps @ [x]) ! j) \<and> \<not> includesObj add ((ps @ [x]) ! j) \<longrightarrow>
        coverageCount ((ps @ [x]) ! j) unc < coverageCount x unc"
    proof (intro allI impI)
      fix j assume j: "j < length ps"
        and e: "\<not> includesObj ess ((ps @ [x]) ! j) \<and> \<not> includesObj add ((ps @ [x]) ! j)"
      from j have "(ps @ [x]) ! j = ps ! j" "ps ! j \<in> set ps" by (simp_all add: nth_append)
      with e le [of "ps ! j"] True show "coverageCount ((ps @ [x]) ! j) unc < coverageCount x unc"
        by simp
    qed
    have all: "\<forall>q \<in> set (ps @ [x]). \<not> includesObj ess q \<and> \<not> includesObj add q \<longrightarrow>
            coverageCount q unc \<le> coverageCount x unc"
      using le True by fastforce
    have "\<exists>i<length (ps @ [x]). (ps @ [x]) ! i = x \<and> \<not> includesObj ess x \<and> \<not> includesObj add x \<and>
               coverageCount x unc = coverageCount x unc \<and> 0 < coverageCount x unc \<and>
               (\<forall>j<i. \<not> includesObj ess ((ps @ [x]) ! j) \<and> \<not> includesObj add ((ps @ [x]) ! j) \<longrightarrow>
                  coverageCount ((ps @ [x]) ! j) unc < coverageCount x unc)"
      using True earlier by (intro exI [of _ "length ps"]) simp
    with all show ?thesis unfolding new by simp
  next
    case False
    have "foldl step (None, 0) (ps @ [x]) = step (b, mx) x"
      by (simp add: st)
    also have "\<dots> = (b, mx)"
      using False by (auto simp: step_def Let_def)
    finally have same: "foldl step (None, 0) (ps @ [x]) = (b, mx)" .
    have all: "\<forall>q \<in> set (ps @ [x]). \<not> includesObj ess q \<and> \<not> includesObj add q \<longrightarrow>
            coverageCount q unc \<le> mx"
      using le False by fastforce
    have keep: "\<exists>i<length (ps @ [x]). (ps @ [x]) ! i = p \<and> \<not> includesObj ess p \<and> \<not> includesObj add p \<and>
               coverageCount p unc = mx \<and> 0 < coverageCount p unc \<and>
               (\<forall>j<i. \<not> includesObj ess ((ps @ [x]) ! j) \<and> \<not> includesObj add ((ps @ [x]) ! j) \<longrightarrow>
                  coverageCount ((ps @ [x]) ! j) unc < coverageCount p unc)" if "b = Some p" for p
    proof -
      from some [OF that] obtain i where i: "i < length ps" "ps ! i = p" "\<not> includesObj ess p"
        "\<not> includesObj add p" "coverageCount p unc = mx" "0 < coverageCount p unc"
        "\<forall>j<i. \<not> includesObj ess (ps ! j) \<and> \<not> includesObj add (ps ! j) \<longrightarrow>
          coverageCount (ps ! j) unc < coverageCount p unc" by blast
      from i(1) have "\<And>j. j \<le> i \<Longrightarrow> (ps @ [x]) ! j = ps ! j" by (simp add: nth_append)
      with i show ?thesis by (intro exI [of _ i]) simp
    qed
    from all none keep show ?thesis unfolding same by simp
  qed
qed

lemma pickBest_Some:
  assumes "pickBest pis ess add unc = Some p"
  shows "\<exists>i<length pis. pis ! i = p \<and> \<not> includesObj ess p \<and> \<not> includesObj add p \<and>
           0 < coverageCount p unc \<and>
           (\<forall>q \<in> set pis. \<not> includesObj ess q \<and> \<not> includesObj add q \<longrightarrow>
              coverageCount q unc \<le> coverageCount p unc) \<and>
           (\<forall>j<i. \<not> includesObj ess (pis ! j) \<and> \<not> includesObj add (pis ! j) \<longrightarrow>
              coverageCount (pis ! j) unc < coverageCount p unc)"
proof -
  obtain b mx where r: "foldl (\<lambda>(bestPI, maxCoverage) pi.
            if \<not> includesObj ess pi \<and> \<not> includesObj add pi then
              (let coverage = coverageCount pi unc
               in if coverage > maxCoverage then (Some pi, coverage) else (bestPI, maxCoverage))
            else (bestPI, maxCoverage)) (None, 0) pis = (b, mx)"
    by (rule prod.exhaust)
  note F = pickBest_fold [of pis ess add unc, unfolded r fst_conv snd_conv]
  from assms r have b: "b = Some p" by (simp add: pickBest_def)
  from F b obtain i where i: "i < length pis" "pis ! i = p" "\<not> includesObj ess p"
    "\<not> includesObj add p" "coverageCount p unc = mx" "0 < coverageCount p unc"
    "\<forall>j<i. \<not> includesObj ess (pis ! j) \<and> \<not> includesObj add (pis ! j) \<longrightarrow>
        coverageCount (pis ! j) unc < coverageCount p unc"
    by blast
  from F i(5) have "\<forall>q \<in> set pis. \<not> includesObj ess q \<and> \<not> includesObj add q \<longrightarrow>
      coverageCount q unc \<le> coverageCount p unc" by simp
  with i show ?thesis by blast
qed

lemma pickBest_None:
  assumes "pickBest pis ess add unc = None"
    and "q \<in> set pis" "\<not> includesObj ess q" "\<not> includesObj add q"
  shows "coverageCount q unc = 0"
proof -
  obtain b mx where r: "foldl (\<lambda>(bestPI, maxCoverage) pi.
            if \<not> includesObj ess pi \<and> \<not> includesObj add pi then
              (let coverage = coverageCount pi unc
               in if coverage > maxCoverage then (Some pi, coverage) else (bestPI, maxCoverage))
            else (bestPI, maxCoverage)) (None, 0) pis = (b, mx)"
    by (rule prod.exhaust)
  note F = pickBest_fold [of pis ess add unc, unfolded r fst_conv snd_conv]
  from assms(1) r have "b = None" by (simp add: pickBest_def)
  with F have "mx = 0" by blast
  moreover from F assms(2,3,4) have "coverageCount q unc \<le> mx" by blast
  ultimately show ?thesis by simp
qed

lemma splice_distinct:
  "distinct unc \<Longrightarrow>
     distinct (foldl (\<lambda>unc m. remove1 m unc) unc ms) \<and>
     set (foldl (\<lambda>unc m. remove1 m unc) unc ms) = set unc - set ms"
proof (induction ms arbitrary: unc)
  case Nil
  then show ?case by simp
next
  case (Cons x ms)
  from Cons.prems have "distinct (remove1 x unc)" "set (remove1 x unc) = set unc - {x}"
    by simp_all
  with Cons.IH [of "remove1 x unc"] show ?case by auto
qed

lemma splice_subset:
  "set (foldl (\<lambda>unc m. remove1 m unc) unc ms) \<subseteq> set unc"
proof (induction ms arbitrary: unc)
  case Nil
  show ?case by simp
next
  case (Cons x ms)
  have "set (foldl (\<lambda>unc m. remove1 m unc) (remove1 x unc) ms) \<subseteq> set (remove1 x unc)"
    by (rule Cons.IH)
  also have "\<dots> \<subseteq> set unc" by (rule set_remove1_subset)
  finally show ?case by simp
qed

lemma tie_primeImplicants:
  "quineMcCluskey [0, 1, 2, 3, 4, 7, 9, 10, 12] 4 =
     [\<lparr>binary = ''0-00'', minterms = [0, 4], used = False, oid = 11\<rparr>,
      \<lparr>binary = ''-001'', minterms = [1, 9], used = False, oid = 13\<rparr>,
      \<lparr>binary = ''-010'', minterms = [2, 10], used = False, oid = 15\<rparr>,
      \<lparr>binary = ''-100'', minterms = [4, 12], used = False, oid = 16\<rparr>,
      \<lparr>binary = ''0-11'', minterms = [3, 7], used = False, oid = 17\<rparr>,
      \<lparr>binary = ''00--'', minterms = [0, 1, 2, 3], used = False, oid = 18\<rparr>,
      \<lparr>binary = ''00--'', minterms = [0, 1, 2, 3], used = False, oid = 18\<rparr>]"
  by code_simp

text \<open>
  Claim C4 says that ties between implicants of equal coverage are broken by the lowest
  literal count, then by the order of the cube strings. For the minterms
  \<open>0, 1, 2, 3, 4, 7, 9, 10, 12\<close> of four variables the essential implicants leave the
  minterm \<open>0\<close> uncovered; \<open>0-00\<close> and \<open>00--\<close> both cover it, neither is selected
  yet, and the loop picks \<open>0-00\<close>, which has three literals, over \<open>00--\<close>, which has
  two.
\<close>

theorem greedy_tie_by_list_order:
  "uncoveredOf
     (essentialPIsOf (quineMcCluskey [0, 1, 2, 3, 4, 7, 9, 10, 12] 4) [0, 1, 2, 3, 4, 7, 9, 10, 12])
     [0, 1, 2, 3, 4, 7, 9, 10, 12] = [0] \<and>
   pickBest (quineMcCluskey [0, 1, 2, 3, 4, 7, 9, 10, 12] 4)
     (essentialPIsOf (quineMcCluskey [0, 1, 2, 3, 4, 7, 9, 10, 12] 4) [0, 1, 2, 3, 4, 7, 9, 10, 12])
     [] [0]
     = Some \<lparr>binary = ''0-00'', minterms = [0, 4], used = False, oid = 11\<rparr> \<and>
   \<lparr>binary = ''00--'', minterms = [0, 1, 2, 3], used = False, oid = 18\<rparr>
     \<in> set (quineMcCluskey [0, 1, 2, 3, 4, 7, 9, 10, 12] 4) \<and>
   \<not> includesObj
       (essentialPIsOf (quineMcCluskey [0, 1, 2, 3, 4, 7, 9, 10, 12] 4) [0, 1, 2, 3, 4, 7, 9, 10, 12])
       \<lparr>binary = ''00--'', minterms = [0, 1, 2, 3], used = False, oid = 18\<rparr> \<and>
   coverageCount \<lparr>binary = ''00--'', minterms = [0, 1, 2, 3], used = False, oid = 18\<rparr> [0] =
     coverageCount \<lparr>binary = ''0-00'', minterms = [0, 4], used = False, oid = 11\<rparr> [0] \<and>
   literalCount ''00--'' < literalCount ''0-00''"
  unfolding tie_primeImplicants by code_simp

text \<open>
  Claim C4, amended. While minterms remain uncovered, the loop selects, among the prime
  implicants not yet selected, one that covers the most remaining minterms, and of several
  such the first in the order of the list of prime implicants; it adds it to the solution
  and takes the minterms it covers out of the remaining ones (one occurrence of each, which
  is all of them when the remaining list has no repetition). When no implicant that is
  not yet selected covers a remaining minterm, the loop stops.
\<close>

theorem greedy_selection:
  assumes "uncovered \<noteq> []"
  shows "(\<forall>p. pickBest pis ess add uncovered = Some p \<longrightarrow>
            (\<exists>i<length pis. pis ! i = p \<and> \<not> includesObj ess p \<and> \<not> includesObj add p \<and>
               0 < coverageCount p uncovered \<and>
               (\<forall>q \<in> set pis. \<not> includesObj ess q \<and> \<not> includesObj add q \<longrightarrow>
                  coverageCount q uncovered \<le> coverageCount p uncovered) \<and>
               (\<forall>j<i. \<not> includesObj ess (pis ! j) \<and> \<not> includesObj add (pis ! j) \<longrightarrow>
                  coverageCount (pis ! j) uncovered < coverageCount p uncovered)) \<and>
            greedyCover pis ess add uncovered =
              greedyCover pis ess (add @ [p]) (spliceCovered uncovered p) \<and>
            set (spliceCovered uncovered p) \<subseteq> set uncovered \<and>
            (distinct uncovered \<longrightarrow>
               set (spliceCovered uncovered p) = set uncovered - set (minterms p))) \<and>
         (pickBest pis ess add uncovered = None \<longrightarrow>
            (\<forall>q \<in> set pis. \<not> includesObj ess q \<and> \<not> includesObj add q \<longrightarrow>
               coverageCount q uncovered = 0) \<and>
            greedyCover pis ess add uncovered = add)"
proof (intro conjI allI impI ballI)
  fix p assume p: "pickBest pis ess add uncovered = Some p"
  show "\<exists>i<length pis. pis ! i = p \<and> \<not> includesObj ess p \<and> \<not> includesObj add p \<and>
               0 < coverageCount p uncovered \<and>
               (\<forall>q \<in> set pis. \<not> includesObj ess q \<and> \<not> includesObj add q \<longrightarrow>
                  coverageCount q uncovered \<le> coverageCount p uncovered) \<and>
               (\<forall>j<i. \<not> includesObj ess (pis ! j) \<and> \<not> includesObj add (pis ! j) \<longrightarrow>
                  coverageCount (pis ! j) uncovered < coverageCount p uncovered)"
    by (rule pickBest_Some [OF p])
  show "greedyCover pis ess add uncovered =
          greedyCover pis ess (add @ [p]) (spliceCovered uncovered p)"
    using assms p by (subst greedyCover.simps) simp
  show "set (spliceCovered uncovered p) \<subseteq> set uncovered"
    unfolding spliceCovered_def by (rule splice_subset)
  show "set (spliceCovered uncovered p) = set uncovered - set (minterms p)"
    if "distinct uncovered"
    unfolding spliceCovered_def using splice_distinct [OF that] by blast
next
  fix q
  assume "pickBest pis ess add uncovered = None" "q \<in> set pis"
    "\<not> includesObj ess q \<and> \<not> includesObj add q"
  then show "coverageCount q uncovered = 0"
    using pickBest_None [of pis ess add uncovered q] by simp
next
  assume "pickBest pis ess add uncovered = None"
  then show "greedyCover pis ess add uncovered = add"
    using assms by (subst greedyCover.simps) simp
qed

theorem greedy_selection_witness:
  "[0, 1, 2] \<noteq> ([] :: nat list) \<and>
   pickBest (quineMcCluskey [0, 1, 2] 2) [] [] [0, 1, 2]
     = Some \<lparr>binary = ''0-'', minterms = [0, 1], used = False, oid = 3\<rparr> \<and>
   greedyCover (quineMcCluskey [0, 1, 2] 2) [] [] [0, 1, 2] =
     greedyCover (quineMcCluskey [0, 1, 2] 2) []
       ([] @ [\<lparr>binary = ''0-'', minterms = [0, 1], used = False, oid = 3\<rparr>])
       (spliceCovered [0, 1, 2] \<lparr>binary = ''0-'', minterms = [0, 1], used = False, oid = 3\<rparr>) \<and>
   set (spliceCovered [0, 1, 2] \<lparr>binary = ''0-'', minterms = [0, 1], used = False, oid = 3\<rparr>) =
     set [0, 1, 2] - set (minterms \<lparr>binary = ''0-'', minterms = [0, 1], used = False, oid = 3\<rparr>)"
proof -
  have h: "[0, 1, 2] \<noteq> ([] :: nat list)" by simp
  have d: "distinct [0, 1, 2 :: nat]" by simp
  have p: "pickBest (quineMcCluskey [0, 1, 2] 2) [] [] [0, 1, 2]
     = Some \<lparr>binary = ''0-'', minterms = [0, 1], used = False, oid = 3\<rparr>"
    by code_simp
  from greedy_selection [OF h, of "quineMcCluskey [0, 1, 2] 2" "[]" "[]"] p d h
  show ?thesis by blast
qed

section \<open>Objects with integer keys\<close>

lemma objGet_objSet:
  "objGet (objSet k v obj) k' = (if k' = k then Some v else objGet obj k')"
  by (induction obj) (auto simp: objGet_def)

lemma objSet_set: "set (objSet k v obj) \<subseteq> insert (k, v) (set obj)"
  by (induction obj) (auto split: if_splits)

lemma objSet_keys: "set (map fst (objSet k v obj)) = insert k (set (map fst obj))"
proof (induction obj)
  case Nil
  show ?case by simp
next
  case (Cons e obj)
  obtain k' v' where e: "e = (k', v')" by (cases e)
  have "set (map fst (objSet k v (e # obj))) =
      (if k < k' then insert k (insert k' (set (map fst obj)))
       else if k = k' then insert k (set (map fst obj))
       else insert k' (set (map fst (objSet k v obj))))"
    by (simp add: e del: set_map)
  also have "\<dots> = insert k (set (map fst (e # obj)))"
    unfolding Cons.IH by (auto simp: e simp del: set_map)
  finally show ?case .
qed

lemma objSet_sorted:
  "sorted_wrt (<) (map fst obj) \<Longrightarrow> sorted_wrt (<) (map fst (objSet k v obj))"
proof (induction obj)
  case Nil
  show ?case by simp
next
  case (Cons e obj)
  obtain k' v' where e: "e = (k', v')" by (cases e)
  from Cons.prems have tl: "sorted_wrt (<) (map fst obj)" and hd: "\<forall>x \<in> set (map fst obj). k' < x"
    by (auto simp: e)
  show ?case
  proof (cases "k < k'")
    case True
    with Cons.prems hd show ?thesis by (auto simp: e)
  next
    case False
    show ?thesis
    proof (cases "k = k'")
      case True
      with Cons.prems show ?thesis by (simp add: e)
    next
      case False
      with \<open>\<not> k < k'\<close> have "k' < k" by simp
      with hd have "\<forall>x \<in> set (map fst (objSet k v obj)). k' < x"
        unfolding objSet_keys by simp
      with Cons.IH [OF tl] \<open>\<not> k < k'\<close> False show ?thesis
        by (simp add: e)
    qed
  qed
qed

lemma objGet_mem: "objGet obj k = Some v \<Longrightarrow> (k, v) \<in> set obj"
  by (simp add: objGet_def map_of_SomeD)

lemma mem_objGet:
  "sorted_wrt (<) (map fst obj) \<Longrightarrow> (k, v) \<in> set obj \<Longrightarrow> objGet obj k = Some v"
  by (simp add: objGet_def strict_sorted_iff)

section \<open>Elements in order of first occurrence\<close>

lemma uniq_fold:
  "distinct acc \<Longrightarrow>
     distinct (foldl (\<lambda>acc x. if x \<in> set acc then acc else acc @ [x]) acc xs) \<and>
     set (foldl (\<lambda>acc x. if x \<in> set acc then acc else acc @ [x]) acc xs) = set acc \<union> set xs"
  by (induction xs arbitrary: acc) auto

lemma set_uniq [simp]: "set (uniq xs) = set xs"
  using uniq_fold [of "[]" xs] by (simp add: uniq_def)

lemma distinct_uniq [simp]: "distinct (uniq xs)"
  using uniq_fold [of "[]" xs] by (simp add: uniq_def)

section \<open>One pass of the tabulation\<close>

lemma foldl_invariant:
  assumes "P s" and "\<And>s x. x \<in> set xs \<Longrightarrow> P s \<Longrightarrow> P (f s x)"
  shows "P (foldl f s xs)"
  using assms by (induction xs arbitrary: s) auto

lemma groupByOnes_subset:
  assumes "g \<in> set (groupByOnes ts)"
  shows "set g \<subseteq> set ts"
proof -
  let ?f = "\<lambda>groups term.
        let ones = countOnes (binary term) in
        objSet ones ((case objGet groups ones of None \<Rightarrow> [] | Some g \<Rightarrow> g) @ [term]) groups"
  have "\<forall>e \<in> set (foldl ?f [] ts). set (snd e) \<subseteq> set ts"
  proof (rule foldl_invariant [where P = "\<lambda>obj. \<forall>e \<in> set obj. set (snd e) \<subseteq> set ts"])
    show "\<forall>e \<in> set []. set (snd e) \<subseteq> set ts" by simp
  next
    fix obj :: "(nat \<times> implicant list) list" and t
    assume t: "t \<in> set ts" and inv: "\<forall>e \<in> set obj. set (snd e) \<subseteq> set ts"
    let ?k = "countOnes (binary t)"
    have old: "set (case objGet obj ?k of None \<Rightarrow> [] | Some g \<Rightarrow> g) \<subseteq> set ts"
    proof (cases "objGet obj ?k")
      case None
      then show ?thesis by simp
    next
      case (Some g')
      with objGet_mem [OF Some] inv show ?thesis by fastforce
    qed
    show "\<forall>e \<in> set (?f obj t). set (snd e) \<subseteq> set ts"
    proof
      fix e assume "e \<in> set (?f obj t)"
      then have "e = (?k, (case objGet obj ?k of None \<Rightarrow> [] | Some g \<Rightarrow> g) @ [t]) \<or> e \<in> set obj"
        using objSet_set [of ?k "(case objGet obj ?k of None \<Rightarrow> [] | Some g \<Rightarrow> g) @ [t]" obj]
        by (auto simp: Let_def)
      then show "set (snd e) \<subseteq> set ts"
      proof
        assume "e = (?k, (case objGet obj ?k of None \<Rightarrow> [] | Some g \<Rightarrow> g) @ [t])"
        then have "set (snd e) = set (case objGet obj ?k of None \<Rightarrow> [] | Some g \<Rightarrow> g) \<union> {t}"
          by simp
        with old t show ?thesis by blast
      next
        assume "e \<in> set obj"
        with inv show ?thesis by blast
      qed
    qed
  qed
  with assms show ?thesis
    unfolding groupByOnes_def by auto
qed

lemma markUsed_unflag:
  "map (\<lambda>t. t\<lparr>used := False\<rparr>) (markUsed r ts) = map (\<lambda>t. t\<lparr>used := False\<rparr>) ts"
  by (simp add: markUsed_def)

lemma combineStep_shape:
  assumes "passShape terms fresh st" "t1 \<in> set terms" "t2 \<in> set terms"
  shows "passShape terms fresh (combineStep fresh t1 t2 st)"
proof (cases "combineBinary (binary t1) (binary t2)")
  case None
  with assms(1) show ?thesis by (simp add: combineStep_def)
next
  case (Some c)
  obtain ts nts where st: "st = (ts, nts)" by (cases st)
  from assms(1) have a: "map (\<lambda>t. t\<lparr>used := False\<rparr>) ts = map (\<lambda>t. t\<lparr>used := False\<rparr>) terms"
    and b: "\<forall>t \<in> set nts. \<exists>t1 \<in> set terms. \<exists>t2 \<in> set terms.
         combineBinary (binary t1) (binary t2) = Some (binary t) \<and>
         minterms t = uniq (minterms t1 @ minterms t2) \<and> \<not> used t"
    and c: "map oid nts = [fresh..<fresh + length nts]"
    by (simp_all add: passShape_def st)
  show ?thesis
  proof (cases "\<exists>t \<in> set nts. binary t = c")
    case True
    then have "combineStep fresh t1 t2 st = (markUsed (oid t2) (markUsed (oid t1) ts), nts)"
      by (simp add: combineStep_def Some st Let_def)
    with a b c show ?thesis
      by (simp add: passShape_def markUsed_unflag)
  next
    case False
    let ?new = "\<lparr>binary = c, minterms = uniq (minterms t1 @ minterms t2), used = False,
                 oid = fresh + length nts\<rparr>"
    from False have step: "combineStep fresh t1 t2 st =
        (markUsed (oid t2) (markUsed (oid t1) ts), nts @ [?new])"
      by (simp add: combineStep_def Some st Let_def)
    have "\<exists>u1 \<in> set terms. \<exists>u2 \<in> set terms.
         combineBinary (binary u1) (binary u2) = Some (binary ?new) \<and>
         minterms ?new = uniq (minterms u1 @ minterms u2) \<and> \<not> used ?new"
      using assms(2,3) Some by auto
    with b have b': "\<forall>t \<in> set (nts @ [?new]). \<exists>t1 \<in> set terms. \<exists>t2 \<in> set terms.
         combineBinary (binary t1) (binary t2) = Some (binary t) \<and>
         minterms t = uniq (minterms t1 @ minterms t2) \<and> \<not> used t"
      by auto
    have c': "map oid (nts @ [?new]) = [fresh..<fresh + length (nts @ [?new])]"
      using c by simp
    from a b' c' show ?thesis
      unfolding step passShape_def by (simp add: markUsed_unflag)
  qed
qed

lemma combineGroups_invariant:
  assumes "P st" "\<And>st t1 t2. t1 \<in> set g1 \<Longrightarrow> t2 \<in> set g2 \<Longrightarrow> P st \<Longrightarrow> P (combineStep fresh t1 t2 st)"
  shows "P (combineGroups fresh g1 g2 st)"
  unfolding combineGroups_def
proof (rule foldl_invariant [where P = P])
  show "P st" by fact
next
  fix s t1 assume t1: "t1 \<in> set g1" and s: "P s"
  show "P (foldl (\<lambda>st term2. combineStep fresh t1 term2 st) s g2)"
    by (rule foldl_invariant [where P = P]) (use t1 s assms(2) in auto)
qed

lemma mergePass_invariant:
  assumes "P (terms, [])"
    and "\<And>st t1 t2. t1 \<in> set terms \<Longrightarrow> t2 \<in> set terms \<Longrightarrow> P st \<Longrightarrow> P (combineStep fresh t1 t2 st)"
  shows "P (mergePass fresh terms)"
proof -
  have "P (foldl (\<lambda>st (group1, group2). combineGroups fresh group1 group2 st)
           (terms, []) (zip (groupByOnes terms) (tl (groupByOnes terms))))"
  proof (rule foldl_invariant [where P = P])
    show "P (terms, [])" by fact
  next
    fix st :: "implicant list \<times> implicant list" and x
    assume x: "x \<in> set (zip (groupByOnes terms) (tl (groupByOnes terms)))" and P: "P st"
    obtain g1 g2 where g: "x = (g1, g2)" by (cases x)
    from x g have "g1 \<in> set (groupByOnes terms)" "g2 \<in> set (tl (groupByOnes terms))"
      by (auto dest: set_zip_leftD set_zip_rightD)
    then have "g1 \<in> set (groupByOnes terms)" "g2 \<in> set (groupByOnes terms)"
      by (auto dest: list.set_sel(2) [rotated])
    then have sub: "set g1 \<subseteq> set terms" "set g2 \<subseteq> set terms"
      by (auto dest: groupByOnes_subset)
    have "P (combineGroups fresh g1 g2 st)"
    proof (rule combineGroups_invariant [where P = P])
      show "P st" by fact
    next
      fix s t1 t2 assume "t1 \<in> set g1" "t2 \<in> set g2" "P s"
      with sub show "P (combineStep fresh t1 t2 s)"
        by (intro assms(2)) blast+
    qed
    then show "P (case x of (group1, group2) \<Rightarrow> combineGroups fresh group1 group2 st)"
      by (simp add: g)
  qed
  then show ?thesis by (simp add: mergePass_def Let_def)
qed

lemma mergePass_shape: "passShape terms fresh (mergePass fresh terms)"
proof (rule mergePass_invariant)
  show "passShape terms fresh (terms, [])"
    by (simp add: passShape_def)
next
  fix st t1 t2
  assume "t1 \<in> set terms" "t2 \<in> set terms" "passShape terms fresh st"
  then show "passShape terms fresh (combineStep fresh t1 t2 st)"
    by (intro combineStep_shape)
qed

section \<open>What every term of the tabulation satisfies\<close>

lemma unflag_fields:
  assumes "map (\<lambda>t. t\<lparr>used := False\<rparr>) a = map (\<lambda>t. t\<lparr>used := False\<rparr>) b" "t \<in> set a"
  shows "\<exists>t0 \<in> set b. binary t = binary t0 \<and> minterms t = minterms t0 \<and> oid t = oid t0"
proof -
  from assms(2) have "t\<lparr>used := False\<rparr> \<in> set (map (\<lambda>t. t\<lparr>used := False\<rparr>) a)" by simp
  with assms(1) obtain t0 where t0: "t0 \<in> set b" "t\<lparr>used := False\<rparr> = t0\<lparr>used := False\<rparr>"
    by auto
  from t0(2) have "binary (t\<lparr>used := False\<rparr>) = binary (t0\<lparr>used := False\<rparr>)"
    "minterms (t\<lparr>used := False\<rparr>) = minterms (t0\<lparr>used := False\<rparr>)"
    "oid (t\<lparr>used := False\<rparr>) = oid (t0\<lparr>used := False\<rparr>)"
    by simp_all
  with t0(1) show ?thesis by auto
qed

lemma qmLoop_preserves:
  assumes comb: "\<And>(t1::implicant) (t2::implicant) c. Q (binary t1) (minterms t1) \<Longrightarrow> Q (binary t2) (minterms t2) \<Longrightarrow>
      combineBinary (binary t1) (binary t2) = Some c \<Longrightarrow> Q c (uniq (minterms t1 @ minterms t2))"
  shows "(\<forall>t \<in> set ts. Q (binary t) (minterms t)) \<Longrightarrow> (\<forall>p \<in> set ps. Q (binary p) (minterms p)) \<Longrightarrow>
     \<forall>t \<in> set (fst (qmLoop n it fresh ts ps k)) \<union> set (fst (snd (qmLoop n it fresh ts ps k))).
        Q (binary t) (minterms t)"
proof (induction n it fresh ts ps k rule: qmLoop.induct)
  case (1 n it fresh ts ps k)
  show ?case
  proof (cases "it < n")
    case False
    with "1.prems" show ?thesis by (auto simp: qmLoop.simps)
  next
    case True
    obtain ts' nts where mp: "mergePass fresh ts = (ts', nts)" by (cases "mergePass fresh ts")
    from mergePass_shape [of ts fresh] mp
    have a: "map (\<lambda>t. t\<lparr>used := False\<rparr>) ts' = map (\<lambda>t. t\<lparr>used := False\<rparr>) ts"
      and b: "\<forall>t \<in> set nts. \<exists>t1 \<in> set ts. \<exists>t2 \<in> set ts.
         combineBinary (binary t1) (binary t2) = Some (binary t) \<and>
         minterms t = uniq (minterms t1 @ minterms t2) \<and> \<not> used t"
      by (simp_all add: passShape_def)
    have Qts': "\<forall>t \<in> set ts'. Q (binary t) (minterms t)"
    proof
      fix t assume "t \<in> set ts'"
      from unflag_fields [OF a this] "1.prems"(1) show "Q (binary t) (minterms t)" by auto
    qed
    have Qnts: "\<forall>t \<in> set nts. Q (binary t) (minterms t)"
    proof
      fix t assume "t \<in> set nts"
      with b obtain t1 t2 where "t1 \<in> set ts" "t2 \<in> set ts"
        "combineBinary (binary t1) (binary t2) = Some (binary t)"
        "minterms t = uniq (minterms t1 @ minterms t2)" by blast
      with comb [of t1 t2 "binary t"] "1.prems"(1) show "Q (binary t) (minterms t)" by simp
    qed
    have Qps': "\<forall>p \<in> set (ps @ filter (\<lambda>term. \<not> used term) ts'). Q (binary p) (minterms p)"
      using "1.prems"(2) Qts' by auto
    show ?thesis
    proof (cases "length nts = 0")
      case True
      with \<open>it < n\<close> mp have "qmLoop n it fresh ts ps k =
          (ts', ps @ filter (\<lambda>term. \<not> used term) ts', k + 1)"
        by (subst qmLoop.simps) simp
      with Qts' Qps' show ?thesis by auto
    next
      case False
      with \<open>it < n\<close> mp have "qmLoop n it fresh ts ps k =
          qmLoop n (it + 1) (fresh + length nts) nts (ps @ filter (\<lambda>term. \<not> used term) ts') (k + 1)"
        by (subst qmLoop.simps) simp
      with "1.IH" [OF \<open>it < n\<close> mp [symmetric] refl refl False Qnts Qps'] show ?thesis by simp
    qed
  qed
qed

lemma quineMcCluskey_preserves:
  assumes comb: "\<And>(t1::implicant) (t2::implicant) c. Q (binary t1) (minterms t1) \<Longrightarrow> Q (binary t2) (minterms t2) \<Longrightarrow>
      combineBinary (binary t1) (binary t2) = Some c \<Longrightarrow> Q c (uniq (minterms t1 @ minterms t2))"
    and init: "\<And>m. m \<in> set ms \<Longrightarrow> Q (binaryOf n m) [m]"
    and p: "p \<in> set (quineMcCluskey ms n)"
  shows "Q (binary p) (minterms p)"
proof -
  have i: "\<forall>t \<in> set (initialTerms ms n). Q (binary t) (minterms t)"
  proof
    fix t assume "t \<in> set (initialTerms ms n)"
    then obtain j m where jm: "(j, m) \<in> set (zip [0..<length ms] ms)"
      and t: "t = \<lparr>binary = binaryOf n m, minterms = [m], used = False, oid = j\<rparr>"
      unfolding initialTerms_def by auto
    from jm have "m \<in> set ms" by (rule set_zip_rightD)
    with init t show "Q (binary t) (minterms t)" by simp
  qed
  obtain ts' ps' k' where r: "qmLoop n 0 (length ms) (initialTerms ms n) [] 0 = (ts', ps', k')"
    by (cases "qmLoop n 0 (length ms) (initialTerms ms n) [] 0") blast
  have none: "\<forall>p \<in> set []. Q (binary p) (minterms p)" by simp
  have "\<forall>t \<in> set (fst (qmLoop n 0 (length ms) (initialTerms ms n) [] 0)) \<union>
      set (fst (snd (qmLoop n 0 (length ms) (initialTerms ms n) [] 0))). Q (binary t) (minterms t)"
    by (rule qmLoop_preserves [where Q = Q, OF comb i none])
  then have all: "\<forall>t \<in> set ts' \<union> set ps'. Q (binary t) (minterms t)"
    unfolding r by simp
  from p have "p \<in> set ts' \<union> set ps'"
    unfolding quineMcCluskey_def r by auto
  with all show ?thesis by blast
qed


section \<open>The coverage map and the essential implicants\<close>

lemma coverage_init:
  "objGet (foldl (\<lambda>coverage m. objSet m [] coverage) c ms) m =
     (if m \<in> set ms then Some [] else objGet c m)"
  by (induction ms arbitrary: c) (auto simp: objGet_objSet)

lemma coverage_inner:
  "objGet (foldl (\<lambda>coverage m.
            case objGet coverage m of
              Some piList \<Rightarrow> objSet m (piList @ [index]) coverage
            | None \<Rightarrow> coverage) c xs) m =
     map_option (\<lambda>l. l @ replicate (count_list xs m) index) (objGet c m)"
proof (induction xs arbitrary: c)
  case Nil
  show ?case by (simp add: option.map_ident)
next
  case (Cons x xs)
  let ?c1 = "case objGet c x of Some piList \<Rightarrow> objSet x (piList @ [index]) c | None \<Rightarrow> c"
  have c1: "objGet ?c1 m = map_option (\<lambda>l. l @ (if x = m then [index] else [])) (objGet c m)"
    by (cases "objGet c x") (auto simp: objGet_objSet option.map_ident)
  show ?case
    unfolding foldl_Cons Cons.IH c1
    by (cases "objGet c m") (simp_all add: replicate_app_Cons_same)
qed

lemma coverage_outer:
  "objGet (foldl (\<lambda>coverage (index, pi).
         foldl (\<lambda>coverage m.
            case objGet coverage m of
              Some piList \<Rightarrow> objSet m (piList @ [index]) coverage
            | None \<Rightarrow> coverage) coverage (minterms pi)) c ips) m =
     map_option (\<lambda>l. l @ concat (map (\<lambda>(i, p). replicate (count_list (minterms p) m) i) ips))
       (objGet c m)"
proof (induction ips arbitrary: c)
  case Nil
  show ?case by (simp add: option.map_ident)
next
  case (Cons ip ips)
  obtain i p where ip: "ip = (i, p)" by (cases ip)
  show ?case
    unfolding foldl_Cons Cons.IH ip
    by (cases "objGet c m") (simp_all add: coverage_inner)
qed

lemma buildCoverage_get:
  "objGet (buildCoverage pis ms) m =
     (if m \<in> set ms
      then Some (concat (map (\<lambda>(i, p). replicate (count_list (minterms p) m) i)
                          (zip [0..<length pis] pis)))
      else None)"
  unfolding buildCoverage_def coverage_outer coverage_init
  by (simp add: objGet_def)

lemma buildCoverage_sorted: "sorted_wrt (<) (map fst (buildCoverage pis ms))"
proof -
  have init: "sorted_wrt (<) (map fst (foldl (\<lambda>coverage m. objSet m [] coverage) [] ms))"
    by (rule foldl_invariant [where P = "\<lambda>c. sorted_wrt (<) (map fst c)"])
       (simp_all add: objSet_sorted)
  have inner: "sorted_wrt (<) (map fst (foldl (\<lambda>coverage m.
            case objGet coverage m of
              Some piList \<Rightarrow> objSet m (piList @ [index]) coverage
            | None \<Rightarrow> coverage) c xs))" if "sorted_wrt (<) (map fst c)" for c index and xs :: "nat list"
    by (rule foldl_invariant [where P = "\<lambda>c. sorted_wrt (<) (map fst c)"])
       (use that in \<open>auto simp: objSet_sorted split: option.splits\<close>)
  show ?thesis
    unfolding buildCoverage_def
    by (rule foldl_invariant [where P = "\<lambda>c. sorted_wrt (<) (map fst c)"])
       (use init inner in \<open>auto split: prod.splits\<close>)
qed

lemma zip_upt_nth: "zip [0..<length xs] xs = map (\<lambda>j. (j, xs ! j)) [0..<length xs]"
  by (rule nth_equalityI) simp_all

lemma entries_set:
  "set (concat (map (\<lambda>(i, p). replicate (count_list (minterms p) m) i) (zip [0..<length pis] pis))) =
     {i. i < length pis \<and> m \<in> set (minterms (pis ! i))}"
  unfolding zip_upt_nth
  by (auto simp: count_list_0_iff)

lemma entries_single:
  assumes "concat (map (\<lambda>(i, p). replicate (count_list (minterms p) m) i) (zip [0..<length pis] pis)) = [i]"
  shows "i < length pis \<and> m \<in> set (minterms (pis ! i)) \<and>
         (\<forall>j<length pis. j \<noteq> i \<longrightarrow> m \<notin> set (minterms (pis ! j)))"
proof -
  have "{j. j < length pis \<and> m \<in> set (minterms (pis ! j))} = {i}"
    using entries_set [of m pis] assms by simp
  then show ?thesis by blast
qed




lemma essentialIndices_fold:
  "set (foldl (\<lambda>acc piList.
         if length piList = 1 then (if hd piList \<in> set acc then acc else acc @ [hd piList])
         else acc) acc ls) = set acc \<union> {i. [i] \<in> set ls}"
proof (induction ls arbitrary: acc)
  case Nil
  show ?case by simp
next
  case (Cons l ls)
  show ?case
  proof (cases "length l = 1")
    case True
    then obtain x where l: "l = [x]"
      by (cases l) auto
    have "{i. [i] \<in> set (l # ls)} = insert x {i. [i] \<in> set ls}"
      unfolding l by auto
    with True l show ?thesis
      unfolding foldl_Cons Cons.IH by auto
  next
    case False
    then have "\<And>i. l \<noteq> [i]" by auto
    then have "{i. [i] \<in> set (l # ls)} = {i. [i] \<in> set ls}" by auto
    with False show ?thesis
      unfolding foldl_Cons Cons.IH by simp
  qed
qed

lemma essentialIndices_iff:
  "i \<in> set (essentialIndices (buildCoverage pis ms)) \<longleftrightarrow>
     (\<exists>m \<in> set ms. objGet (buildCoverage pis ms) m = Some [i])"
proof -
  have "i \<in> set (essentialIndices (buildCoverage pis ms)) \<longleftrightarrow>
        [i] \<in> set (map snd (buildCoverage pis ms))"
    unfolding essentialIndices_def essentialIndices_fold by simp
  also have "\<dots> \<longleftrightarrow> (\<exists>m. (m, [i]) \<in> set (buildCoverage pis ms))"
    by force
  also have "\<dots> \<longleftrightarrow> (\<exists>m. objGet (buildCoverage pis ms) m = Some [i])"
    using mem_objGet [OF buildCoverage_sorted [of pis ms]] objGet_mem [of "buildCoverage pis ms"]
    by blast
  also have "\<dots> \<longleftrightarrow> (\<exists>m \<in> set ms. objGet (buildCoverage pis ms) m = Some [i])"
    by (auto simp: buildCoverage_get split: if_splits)
  finally show ?thesis .
qed

text \<open>
  The essential implicants are the entries of the list that alone cover some required
  minterm.
\<close>

lemma essentialPIsOf_sole:
  assumes "p \<in> set (essentialPIsOf pis ms)"
  shows "\<exists>i<length pis. p = pis ! i \<and>
           (\<exists>m \<in> set ms. m \<in> set (minterms (pis ! i)) \<and>
               (\<forall>j<length pis. j \<noteq> i \<longrightarrow> m \<notin> set (minterms (pis ! j))))"
proof -
  from assms obtain i where i: "i \<in> set (essentialIndices (buildCoverage pis ms))" "p = pis ! i"
    by (auto simp: essentialPIsOf_def)
  from i(1) obtain m where m: "m \<in> set ms" "objGet (buildCoverage pis ms) m = Some [i]"
    unfolding essentialIndices_iff by blast
  then have "concat (map (\<lambda>(i, p). replicate (count_list (minterms p) m) i) (zip [0..<length pis] pis)) = [i]"
    by (simp add: buildCoverage_get)
  from entries_single [OF this] i(2) m(1) show ?thesis by blast
qed


text \<open>What the greedy loop adds to \<open>additionalPIs\<close>.\<close>

lemma greedyCover_added:
  "p \<in> set (greedyCover pis ess add unc) \<Longrightarrow>
     p \<in> set add \<or> (p \<in> set pis \<and> \<not> includesObj ess p \<and> (\<exists>m \<in> set unc. m \<in> set (minterms p)))"
proof (induction pis ess add unc rule: greedyCover.induct)
  case (1 pis ess add unc)
  show ?case
  proof (cases "length unc > 0")
    case False
    with "1.prems" show ?thesis by (simp add: greedyCover.simps)
  next
    case True
    show ?thesis
    proof (cases "pickBest pis ess add unc")
      case None
      with True "1.prems" show ?thesis by (simp add: greedyCover.simps)
    next
      case (Some best)
      from pickBest_Some [OF Some] have best: "best \<in> set pis" "\<not> includesObj ess best"
        "0 < coverageCount best unc" by auto
      from best(3) obtain m where m: "m \<in> set (minterms best)" "m \<in> set unc"
        unfolding coverageCount_def by (auto simp: filter_empty_conv)
      from True Some "1.prems" have "p \<in> set (greedyCover pis ess (add @ [best]) (spliceCovered unc best))"
        by (subst (asm) greedyCover.simps) simp
      from "1.IH" [OF True Some this]
      have "p \<in> set (add @ [best]) \<or> (p \<in> set pis \<and> \<not> includesObj ess p \<and>
          (\<exists>m \<in> set (spliceCovered unc best). m \<in> set (minterms p)))" .
      moreover have "set (spliceCovered unc best) \<subseteq> set unc"
        unfolding spliceCovered_def by (rule splice_subset)
      ultimately show ?thesis using best(1,2) m by auto
    qed
  qed
qed

section \<open>The list returned as \<open>essentialPrimeImplicants\<close>\<close>








section \<open>Binary strings and what a cube covers\<close>

lemma toBinary_length: "0 < n \<Longrightarrow> m < 2 ^ n \<Longrightarrow> length (toBinary m) \<le> n"
proof (induction m arbitrary: n rule: toBinary.induct)
  case (1 m)
  show ?case
  proof (cases "m < 2")
    case True
    with "1.prems" show ?thesis by (simp add: toBinary.simps [of m])
  next
    case False
    from "1.prems" obtain k where k: "n = Suc k" by (cases n) auto
    have "0 < k"
    proof (rule ccontr)
      assume "\<not> 0 < k"
      with k "1.prems" False show False by simp
    qed
    with k have n: "n = Suc k" "0 < k" by simp_all
    from "1.prems" n have "m div 2 < 2 ^ k" by auto
    from "1.IH" [OF False n(2) this] False n show ?thesis
      by (simp add: toBinary.simps [of m])
  qed
qed

lemma toBinary_digits: "set (toBinary m) \<subseteq> {CHR ''0'', CHR ''1''}"
proof (induction m rule: toBinary.induct)
  case (1 m)
  then show ?case
    by (cases "m < 2") (auto simp: toBinary.simps [of m])
qed

lemma parseBinary_snoc:
  "parseBinary (s @ [c]) = 2 * parseBinary s + (if c = CHR ''1'' then 1 else 0)"
  by (simp add: parseBinary_def)

lemma parseBinary_toBinary: "parseBinary (toBinary m) = m"
proof (induction m rule: toBinary.induct)
  case (1 m)
  show ?case
  proof (cases "m < 2")
    case True
    then have "m = 0 \<or> m = 1" by auto
    then show ?thesis by (auto simp: toBinary.simps [of m] parseBinary_def)
  next
    case False
    have "toBinary m = toBinary (m div 2) @ [if m mod 2 = 0 then CHR ''0'' else CHR ''1'']"
      using False by (simp add: toBinary.simps [of m])
    then have "parseBinary (toBinary m) = 2 * (m div 2) + (if m mod 2 = 0 then 0 else 1)"
      using "1.IH" [OF False] by (simp add: parseBinary_snoc)
    also have "\<dots> = m" by presburger
    finally show ?thesis .
  qed
qed

lemma parseBinary_zeros: "parseBinary (replicate k (CHR ''0'') @ s) = parseBinary s"
proof -
  have "foldl (\<lambda>v c. 2 * v + (if c = CHR ''1'' then 1 else 0)) 0 (replicate k (CHR ''0'')) = (0::nat)"
    by (induction k) simp_all
  then show ?thesis by (simp add: parseBinary_def)
qed

lemma parseBinary_binaryOf: "parseBinary (binaryOf n m) = m"
  by (simp add: binaryOf_def padStart_def parseBinary_zeros parseBinary_toBinary)

lemma binaryOf_length: "0 < n \<Longrightarrow> m < 2 ^ n \<Longrightarrow> length (binaryOf n m) = n"
  using toBinary_length [of n m] by (simp add: binaryOf_def padStart_def)

lemma binaryOf_digits: "set (binaryOf n m) \<subseteq> {CHR ''0'', CHR ''1''}"
  using toBinary_digits [of m] by (auto simp: binaryOf_def padStart_def)

lemma binaryOf_inject:
  assumes "binaryOf n a = binaryOf n b"
  shows "a = b"
proof -
  have "a = parseBinary (binaryOf n a)" by (rule parseBinary_binaryOf [symmetric])
  also have "\<dots> = parseBinary (binaryOf n b)" by (rule arg_cong [OF assms])
  also have "\<dots> = b" by (rule parseBinary_binaryOf)
  finally show ?thesis .
qed

lemma covers_nth:
  "covers cube bits \<longleftrightarrow>
     length cube = length bits \<and> (\<forall>k<length cube. cube ! k = CHR ''-'' \<or> cube ! k = bits ! k)"
  by (simp add: covers_def list_all2_conv_all_nth)

lemma covers_digits:
  assumes "set cube \<subseteq> {CHR ''0'', CHR ''1''}"
  shows "covers cube bits \<longleftrightarrow> cube = bits"
proof -
  have "\<And>k. k < length cube \<Longrightarrow> cube ! k \<noteq> CHR ''-''"
    using assms nth_mem by fastforce
  then show ?thesis
    unfolding covers_nth by (auto simp: list_eq_iff_nth_eq)
qed

lemma combineBinary_covers:
  assumes c: "combineBinary a b = Some c"
    and len: "length a = length b" "length x = length a"
    and tri: "triState a" "triState b"
    and x: "set x \<subseteq> {CHR ''0'', CHR ''1''}"
  shows "covers c x \<longleftrightarrow> covers a x \<or> covers b x"
proof -
  from c len(1) obtain i where i: "i < length a" "a ! i \<noteq> b ! i" "a ! i \<noteq> CHR ''-''"
    "b ! i \<noteq> CHR ''-''" and same: "\<forall>j<length a. j \<noteq> i \<longrightarrow> a ! j = b ! j"
    and cdef: "c = a[i := CHR ''-'']"
    using combineBinary_iff [OF len(1), of c] by blast
  from i(1) len have "a ! i \<in> set a" "b ! i \<in> set b" "x ! i \<in> set x" by auto
  with tri i(3,4) x have "a ! i = CHR ''0'' \<or> a ! i = CHR ''1''"
    "b ! i = CHR ''0'' \<or> b ! i = CHR ''1''" "x ! i = CHR ''0'' \<or> x ! i = CHR ''1''"
    unfolding triState_def by auto
  with i(2) have xi: "x ! i = a ! i \<or> x ! i = b ! i" by auto
  have rest: "\<And>j. j < length a \<Longrightarrow> j \<noteq> i \<Longrightarrow> c ! j = a ! j \<and> b ! j = a ! j"
    using same cdef by simp
  have ci: "c ! i = CHR ''-''" using cdef i(1) by simp
  have lc: "length c = length a" using cdef by simp
  show ?thesis
  proof
    assume cov: "covers c x"
    then have all: "\<forall>k<length a. c ! k = CHR ''-'' \<or> c ! k = x ! k"
      unfolding covers_nth lc by blast
    from xi show "covers a x \<or> covers b x"
    proof
      assume "x ! i = a ! i"
      have "\<forall>k<length a. a ! k = CHR ''-'' \<or> a ! k = x ! k"
      proof (intro allI impI)
        fix k assume k: "k < length a"
        show "a ! k = CHR ''-'' \<or> a ! k = x ! k"
          using all k rest [of k] \<open>x ! i = a ! i\<close> by (cases "k = i") auto
      qed
      then show ?thesis unfolding covers_nth using len by simp
    next
      assume "x ! i = b ! i"
      have "\<forall>k<length b. b ! k = CHR ''-'' \<or> b ! k = x ! k"
      proof (intro allI impI)
        fix k assume k: "k < length b"
        show "b ! k = CHR ''-'' \<or> b ! k = x ! k"
          using all k rest [of k] \<open>x ! i = b ! i\<close> len by (cases "k = i") auto
      qed
      then show ?thesis unfolding covers_nth using len by simp
    qed
  next
    assume "covers a x \<or> covers b x"
    then have "\<forall>k<length a. k \<noteq> i \<longrightarrow> a ! k = CHR ''-'' \<or> a ! k = x ! k"
      unfolding covers_nth using same len by auto
    then have "\<forall>k<length c. c ! k = CHR ''-'' \<or> c ! k = x ! k"
      using ci rest lc by (metis (no_types, lifting))
    then show "covers c x"
      unfolding covers_nth using lc len by simp
  qed
qed

lemma combineBinary_shape:
  assumes "combineBinary a b = Some c" "length a = length b" "triState a"
  shows "length c = length a \<and> triState c"
proof -
  from assms(1,2) obtain i where "c = a[i := CHR ''-'']"
    using combineBinary_iff [OF assms(2), of c] by blast
  with assms(3) show ?thesis
    unfolding triState_def by (auto dest: set_update_subset_insert [THEN subsetD])
qed

lemma wellFormed_combine:
  fixes t1 t2 :: implicant
  assumes n: "0 < n"
    and w1: "length (binary t1) = n \<and> triState (binary t1) \<and>
             set (minterms t1) = {i. i < 2 ^ n \<and> covers (binary t1) (binaryOf n i)}"
    and w2: "length (binary t2) = n \<and> triState (binary t2) \<and>
             set (minterms t2) = {i. i < 2 ^ n \<and> covers (binary t2) (binaryOf n i)}"
    and c: "combineBinary (binary t1) (binary t2) = Some c"
  shows "length c = n \<and> triState c \<and>
         set (uniq (minterms t1 @ minterms t2)) = {i. i < 2 ^ n \<and> covers c (binaryOf n i)}"
proof -
  from w1 w2 have len: "length (binary t1) = length (binary t2)" by simp
  from combineBinary_shape [OF c len] w1 have shape: "length c = n" "triState c" by simp_all
  have "covers c (binaryOf n i) \<longleftrightarrow> covers (binary t1) (binaryOf n i) \<or> covers (binary t2) (binaryOf n i)"
    if "i < 2 ^ n" for i
    by (rule combineBinary_covers [OF c len])
       (use w1 w2 n that in \<open>simp_all add: binaryOf_length binaryOf_digits\<close>)
  then have "{i. i < 2 ^ n \<and> covers c (binaryOf n i)} =
      {i. i < 2 ^ n \<and> covers (binary t1) (binaryOf n i)} \<union>
      {i. i < 2 ^ n \<and> covers (binary t2) (binaryOf n i)}"
    by blast
  with w1 w2 shape show ?thesis by simp
qed

lemma wellFormed_initial:
  assumes "0 < n" "m < 2 ^ n"
  shows "length (binaryOf n m) = n \<and> triState (binaryOf n m) \<and>
         set [m] = {i. i < 2 ^ n \<and> covers (binaryOf n m) (binaryOf n i)}"
proof -
  have "covers (binaryOf n m) (binaryOf n i) \<longleftrightarrow> i = m" for i
    using covers_digits [OF binaryOf_digits, of n m "binaryOf n i"] binaryOf_inject [of n m i]
    by auto
  moreover have "triState (binaryOf n m)"
    using binaryOf_digits [of n m] unfolding triState_def by auto
  ultimately show ?thesis
    using assms by (auto simp: binaryOf_length)
qed

lemma quineMcCluskey_wellFormed:
  assumes n: "0 < n" and ms: "\<forall>m \<in> set ms. m < 2 ^ n" and p: "p \<in> set (quineMcCluskey ms n)"
  shows "wellFormed n p"
  unfolding wellFormed_def
proof (rule quineMcCluskey_preserves
    [where Q = "\<lambda>b xs. length b = n \<and> triState b \<and> set xs = {i. i < 2 ^ n \<and> covers b (binaryOf n i)}"
       and ms = ms and n = n])
  fix t1 t2 :: implicant and c
  assume "length (binary t1) = n \<and> triState (binary t1) \<and>
             set (minterms t1) = {i. i < 2 ^ n \<and> covers (binary t1) (binaryOf n i)}"
    "length (binary t2) = n \<and> triState (binary t2) \<and>
             set (minterms t2) = {i. i < 2 ^ n \<and> covers (binary t2) (binaryOf n i)}"
    "combineBinary (binary t1) (binary t2) = Some c"
  then show "length c = n \<and> triState c \<and>
         set (uniq (minterms t1 @ minterms t2)) = {i. i < 2 ^ n \<and> covers c (binaryOf n i)}"
    by (rule wellFormed_combine [OF n])
next
  fix m assume "m \<in> set ms"
  with ms have "m < 2 ^ n" by blast
  then show "length (binaryOf n m) = n \<and> triState (binaryOf n m) \<and>
         set [m] = {i. i < 2 ^ n \<and> covers (binaryOf n m) (binaryOf n i)}"
    by (rule wellFormed_initial [OF n])
next
  show "p \<in> set (quineMcCluskey ms n)" by fact
qed

section \<open>Every minterm ends in the cover set of a prime implicant\<close>

lemma combineStep_marks:
  assumes shape: "passShape ts fresh st" and marks: "passMarks ts st"
    and t1: "t1 \<in> set ts" and t2: "t2 \<in> set ts" and inj: "oidInjective (set ts)"
  shows "passMarks ts (combineStep fresh t1 t2 st)"
proof (cases "combineBinary (binary t1) (binary t2)")
  case None
  with marks show ?thesis by (simp add: combineStep_def)
next
  case (Some c)
  obtain cur nts where st: "st = (cur, nts)" by (cases st)
  let ?new = "\<lparr>binary = c, minterms = uniq (minterms t1 @ minterms t2), used = False,
               oid = fresh + length nts\<rparr>"
  let ?nts' = "if \<exists>t \<in> set nts. binary t = c then nts else nts @ [?new]"
  have step: "combineStep fresh t1 t2 st = (markUsed (oid t2) (markUsed (oid t1) cur), ?nts')"
    by (simp add: combineStep_def Some st Let_def)
  have grows: "set nts \<subseteq> set ?nts'" by auto
  have "\<exists>t'. t' \<in> set ?nts' \<and> binary t' = c"
  proof (cases "\<exists>t \<in> set nts. binary t = c")
    case True
    then show ?thesis by auto
  next
    case False
    then have "?new \<in> set ?nts' \<and> binary ?new = c" by simp
    then show ?thesis by (rule exI)
  qed
  then obtain t' where t': "t' \<in> set ?nts'" "binary t' = c" by blast
  from shape have a: "map (\<lambda>t. t\<lparr>used := False\<rparr>) cur = map (\<lambda>t. t\<lparr>used := False\<rparr>) ts"
    by (simp add: passShape_def st)
  have "\<exists>u \<in> set ts. \<exists>t' \<in> set ?nts'.
           combineBinary (binary t) (binary u) = Some (binary t') \<or>
           combineBinary (binary u) (binary t) = Some (binary t')"
    if t: "t \<in> set (markUsed (oid t2) (markUsed (oid t1) cur))" and u: "used t" for t
  proof -
    from t obtain t0 where t0: "t0 \<in> set cur" "binary t = binary t0" "oid t = oid t0"
      and how: "used t0 \<or> oid t0 = oid t1 \<or> oid t0 = oid t2"
      using u unfolding markUsed_def by (auto split: if_splits)
    from unflag_fields [OF a t0(1)] obtain s where s: "s \<in> set ts" "binary t0 = binary s"
      "oid t0 = oid s" by blast
    from how show ?thesis
    proof (elim disjE)
      assume "used t0"
      with marks t0(1) obtain u x where "u \<in> set ts" "x \<in> set nts"
        "combineBinary (binary t0) (binary u) = Some (binary x) \<or>
         combineBinary (binary u) (binary t0) = Some (binary x)"
        unfolding passMarks_def st by auto
      with grows t0(2) show ?thesis by auto
    next
      assume "oid t0 = oid t1"
      with s t1 inj have "s = t1" unfolding oidInjective_def by auto
      with s t0 Some have "combineBinary (binary t) (binary t2) = Some (binary t')"
        using t'(2) by simp
      with t2 t'(1) show ?thesis by blast
    next
      assume "oid t0 = oid t2"
      with s t2 inj have "s = t2" unfolding oidInjective_def by auto
      with s t0 Some have "combineBinary (binary t1) (binary t) = Some (binary t')"
        using t'(2) by simp
      with t1 t'(1) show ?thesis by blast
    qed
  qed
  then show ?thesis
    unfolding step passMarks_def fst_conv snd_conv by blast
qed

lemma mergePass_marks:
  assumes inj: "oidInjective (set ts)" and unused: "\<forall>t \<in> set ts. \<not> used t"
  shows "passMarks ts (mergePass fresh ts)"
proof -
  have "passShape ts fresh (mergePass fresh ts) \<and> passMarks ts (mergePass fresh ts)"
  proof (rule mergePass_invariant [where P = "\<lambda>st. passShape ts fresh st \<and> passMarks ts st"])
    show "passShape ts fresh (ts, []) \<and> passMarks ts (ts, [])"
      using unused by (simp add: passShape_def passMarks_def)
  next
    fix st t1 t2
    assume "t1 \<in> set ts" "t2 \<in> set ts" "passShape ts fresh st \<and> passMarks ts st"
    then show "passShape ts fresh (combineStep fresh t1 t2 st) \<and>
        passMarks ts (combineStep fresh t1 t2 st)"
      using combineStep_shape combineStep_marks [OF _ _ _ _ inj] by blast
  qed
  then show ?thesis ..
qed

lemma unflag_unused:
  assumes a: "map (\<lambda>t. t\<lparr>used := False\<rparr>) cur = map (\<lambda>t. t\<lparr>used := False\<rparr>) ts"
    and unused: "\<forall>t \<in> set ts. \<not> used t"
  shows "set (filter (\<lambda>t. \<not> used t) cur) \<subseteq> set ts"
    and "\<forall>t \<in> set ts. \<exists>s \<in> set cur. binary s = binary t \<and> minterms s = minterms t"
proof -
  have id: "map (\<lambda>t. t\<lparr>used := False\<rparr>) ts = ts"
    using unused by (intro map_idI) simp
  show "set (filter (\<lambda>t. \<not> used t) cur) \<subseteq> set ts"
  proof
    fix t assume "t \<in> set (filter (\<lambda>t. \<not> used t) cur)"
    then have t: "t \<in> set cur" "\<not> used t" by simp_all
    then have "t\<lparr>used := False\<rparr> = t" by simp
    moreover from t(1) have "t\<lparr>used := False\<rparr> \<in> set (map (\<lambda>t. t\<lparr>used := False\<rparr>) cur)"
      unfolding set_map by (rule imageI)
    ultimately show "t \<in> set ts" unfolding a id by simp
  qed
  show "\<forall>t \<in> set ts. \<exists>s \<in> set cur. binary s = binary t \<and> minterms s = minterms t"
  proof
    fix t assume "t \<in> set ts"
    then have "t \<in> set (map (\<lambda>t. t\<lparr>used := False\<rparr>) cur)" unfolding a id .
    then obtain s where "s \<in> set cur" "t = s\<lparr>used := False\<rparr>" by auto
    then show "\<exists>s \<in> set cur. binary s = binary t \<and> minterms s = minterms t" by auto
  qed
qed

lemma wellFormed_absorbs:
  assumes n: "0 < n" and wt: "wellFormed n t" and wu: "wellFormed n u" and wx: "wellFormed n x"
    and c: "combineBinary (binary t) (binary u) = Some (binary x) \<or>
            combineBinary (binary u) (binary t) = Some (binary x)"
  shows "set (minterms t) \<subseteq> set (minterms x)"
proof
  fix m assume "m \<in> set (minterms t)"
  with wt have m: "m < 2 ^ n" "covers (binary t) (binaryOf n m)"
    unfolding wellFormed_def by auto
  have bits: "length (binaryOf n m) = n" "set (binaryOf n m) \<subseteq> {CHR ''0'', CHR ''1''}"
    using n m(1) by (simp_all add: binaryOf_length binaryOf_digits)
  from c have "covers (binary x) (binaryOf n m)"
  proof
    assume "combineBinary (binary t) (binary u) = Some (binary x)"
    from combineBinary_covers [OF this, of "binaryOf n m"] wt wu bits m(2)
    show ?thesis unfolding wellFormed_def by simp
  next
    assume "combineBinary (binary u) (binary t) = Some (binary x)"
    from combineBinary_covers [OF this, of "binaryOf n m"] wt wu bits m(2)
    show ?thesis unfolding wellFormed_def by simp
  qed
  with m(1) wx show "m \<in> set (minterms x)"
    unfolding wellFormed_def by simp
qed

lemma qmLoop_complete:
  assumes n: "0 < n"
  shows "(\<forall>t \<in> set ts \<union> set ps. wellFormed n t) \<Longrightarrow> (\<forall>t \<in> set ts. \<not> used t) \<Longrightarrow>
     (\<forall>x \<in> set ts \<union> set ps. oid x < fresh) \<Longrightarrow> oidInjective (set ts \<union> set ps) \<Longrightarrow>
     (\<forall>m \<in> A. coveredBy (set ts \<union> set ps) m) \<Longrightarrow>
     oidInjective (set (fst (snd (qmLoop nv it fresh ts ps k))) \<union>
                   set (filter (\<lambda>t. \<not> used t) (fst (qmLoop nv it fresh ts ps k)))) \<and>
     (\<forall>m \<in> A. coveredBy (set (fst (snd (qmLoop nv it fresh ts ps k))) \<union>
                   set (filter (\<lambda>t. \<not> used t) (fst (qmLoop nv it fresh ts ps k)))) m)"
proof (induction nv it fresh ts ps k rule: qmLoop.induct)
  case (1 nv it fresh ts ps k)
  note wf = "1.prems"(1) and unused = "1.prems"(2) and below = "1.prems"(3)
    and inj = "1.prems"(4) and cov = "1.prems"(5)
  show ?case
  proof (cases "it < nv")
    case False
    then have r: "qmLoop nv it fresh ts ps k = (ts, ps, k)" by (simp add: qmLoop.simps)
    have "filter (\<lambda>t. \<not> used t) ts = ts" using unused by simp
    with inj cov show ?thesis unfolding r by (simp add: Un_commute)
  next
    case True
    obtain cur nts where mp: "mergePass fresh ts = (cur, nts)" by (cases "mergePass fresh ts")
    from inj have injts: "oidInjective (set ts)" unfolding oidInjective_def by blast
    from mergePass_shape [of ts fresh] mp
    have a: "map (\<lambda>t. t\<lparr>used := False\<rparr>) cur = map (\<lambda>t. t\<lparr>used := False\<rparr>) ts"
      and b: "\<forall>t \<in> set nts. \<exists>t1 \<in> set ts. \<exists>t2 \<in> set ts.
         combineBinary (binary t1) (binary t2) = Some (binary t) \<and>
         minterms t = uniq (minterms t1 @ minterms t2) \<and> \<not> used t"
      and c: "map oid nts = [fresh..<fresh + length nts]"
      by (simp_all add: passShape_def)
    from mergePass_marks [OF injts unused, of fresh] mp
    have marks: "\<forall>t \<in> set cur. used t \<longrightarrow>
        (\<exists>u \<in> set ts. \<exists>t' \<in> set nts.
           combineBinary (binary t) (binary u) = Some (binary t') \<or>
           combineBinary (binary u) (binary t) = Some (binary t'))"
      by (simp add: passMarks_def)
    note sub = unflag_unused(1) [OF a unused] and copy = unflag_unused(2) [OF a unused]
    let ?ps' = "ps @ filter (\<lambda>t. \<not> used t) cur"
    have ps'sub: "set ?ps' \<subseteq> set ts \<union> set ps" using sub by auto
    have wfn: "\<forall>t \<in> set nts. wellFormed n t"
    proof
      fix t assume "t \<in> set nts"
      with b obtain t1 t2 where t12: "t1 \<in> set ts" "t2 \<in> set ts"
        "combineBinary (binary t1) (binary t2) = Some (binary t)"
        "minterms t = uniq (minterms t1 @ minterms t2)" by blast
      from t12(1,2) wf have "wellFormed n t1" "wellFormed n t2" by auto
      from wellFormed_combine [OF n this [unfolded wellFormed_def] t12(3)] t12(4)
      show "wellFormed n t" unfolding wellFormed_def by simp
    qed
    have step: "m \<in> A \<Longrightarrow> coveredBy (set nts \<union> set ?ps') m" for m
    proof -
      assume "m \<in> A"
      with cov obtain p where p: "p \<in> set ts \<union> set ps" "m \<in> set (minterms p)"
        unfolding coveredBy_def by blast
      show "coveredBy (set nts \<union> set ?ps') m"
      proof (cases "p \<in> set ps")
        case True
        then have "p \<in> set nts \<union> set ?ps'" by simp
        with p(2) show ?thesis unfolding coveredBy_def by blast
      next
        case False
        with p(1) have pts: "p \<in> set ts" by simp
        with copy obtain s where s: "s \<in> set cur" "binary s = binary p" "minterms s = minterms p"
          by blast
        show ?thesis
        proof (cases "used s")
          case False
          with s(1) have "s \<in> set nts \<union> set ?ps'" by simp
          moreover from s(3) p(2) have "m \<in> set (minterms s)" by simp
          ultimately show ?thesis unfolding coveredBy_def by blast
        next
          case True
          with marks s(1) obtain u x where ux: "u \<in> set ts" "x \<in> set nts"
            "combineBinary (binary s) (binary u) = Some (binary x) \<or>
             combineBinary (binary u) (binary s) = Some (binary x)" by blast
          from pts ux(1) wf have "wellFormed n p" "wellFormed n u" by auto
          moreover from ux(2) wfn have "wellFormed n x" by blast
          ultimately have "set (minterms p) \<subseteq> set (minterms x)"
            using wellFormed_absorbs [OF n, of p u x] ux(3) s(2) by simp
          with p(2) have "m \<in> set (minterms x)" by blast
          moreover from ux(2) have "x \<in> set nts \<union> set ?ps'" by simp
          ultimately show ?thesis unfolding coveredBy_def by blast
        qed
      qed
    qed
    show ?thesis
    proof (cases "length nts = 0")
      case True
      with \<open>it < nv\<close> mp have r: "qmLoop nv it fresh ts ps k = (cur, ?ps', k + 1)"
        by (subst qmLoop.simps) simp
      have "set ?ps' \<union> set (filter (\<lambda>t. \<not> used t) cur) = set ?ps'" by auto
      moreover have "oidInjective (set ?ps')"
        using inj ps'sub unfolding oidInjective_def by blast
      moreover have "\<forall>m \<in> A. coveredBy (set ?ps') m"
        using step True by simp
      ultimately show ?thesis unfolding r by simp
    next
      case False
      with \<open>it < nv\<close> mp have r: "qmLoop nv it fresh ts ps k =
          qmLoop nv (it + 1) (fresh + length nts) nts ?ps' (k + 1)"
        by (subst qmLoop.simps) simp
      have oids: "\<forall>x \<in> set nts. fresh \<le> oid x \<and> oid x < fresh + length nts"
      proof
        fix x assume "x \<in> set nts"
        then have "oid x \<in> set (map oid nts)" by simp
        then show "fresh \<le> oid x \<and> oid x < fresh + length nts" unfolding c by simp
      qed
      have wf': "\<forall>t \<in> set nts \<union> set ?ps'. wellFormed n t"
        using wfn wf ps'sub by blast
      have unused': "\<forall>t \<in> set nts. \<not> used t" using b by blast
      have below': "\<forall>x \<in> set nts \<union> set ?ps'. oid x < fresh + length nts"
      proof
        fix x assume "x \<in> set nts \<union> set ?ps'"
        then show "oid x < fresh + length nts"
        proof
          assume "x \<in> set nts" with oids show ?thesis by blast
        next
          assume "x \<in> set ?ps'"
          with ps'sub below have "oid x < fresh" by blast
          then show ?thesis by simp
        qed
      qed
      have "distinct (map oid nts)" unfolding c by simp
      then have injn: "inj_on oid (set nts)" by (simp add: distinct_map)
      have inj': "oidInjective (set nts \<union> set ?ps')"
        unfolding oidInjective_def
      proof (intro ballI impI)
        fix x y assume xy: "x \<in> set nts \<union> set ?ps'" "y \<in> set nts \<union> set ?ps'" "oid x = oid y"
        have old: "z \<in> set ?ps' \<Longrightarrow> oid z < fresh" for z using ps'sub below by blast
        consider "x \<in> set nts" "y \<in> set nts" | "x \<in> set ?ps'" "y \<in> set ?ps'"
          | "x \<in> set nts" "y \<in> set ?ps'" | "x \<in> set ?ps'" "y \<in> set nts"
          using xy(1,2) by blast
        then show "x = y"
        proof cases
          case 1
          with injn xy(3) show ?thesis by (auto dest: inj_onD)
        next
          case 2
          with ps'sub inj xy(3) show ?thesis unfolding oidInjective_def by blast
        next
          case 3
          with oids old [of y] xy(3) show ?thesis by force
        next
          case 4
          with oids old [of x] xy(3) show ?thesis by force
        qed
      qed
      have cov': "\<forall>m \<in> A. coveredBy (set nts \<union> set ?ps') m"
        using step by blast
      from "1.IH" [OF \<open>it < nv\<close> mp [symmetric] refl refl False wf' unused' below' inj' cov']
      show ?thesis unfolding r .
    qed
  qed
qed

text \<open>
  For minterms in range, the list of prime implicants holds well-formed terms, no two
  different objects of it share an identity, and every given minterm lies in the cover set
  of one of them.
\<close>

lemma initialTerms_set:
  "t \<in> set (initialTerms ms n) \<longleftrightarrow>
     (\<exists>j<length ms. t = \<lparr>binary = binaryOf n (ms ! j), minterms = [ms ! j], used = False, oid = j\<rparr>)"
  unfolding initialTerms_def zip_upt_nth by auto

lemma quineMcCluskey_complete:
  assumes n: "0 < n" and ms: "\<forall>m \<in> set ms. m < 2 ^ n"
  shows "oidInjective (set (quineMcCluskey ms n)) \<and>
         (\<forall>m \<in> set ms. coveredBy (set (quineMcCluskey ms n)) m)"
proof -
  let ?ts = "initialTerms ms n"
  have wf: "\<forall>t \<in> set ?ts \<union> set []. wellFormed n t"
  proof
    fix t assume "t \<in> set ?ts \<union> set []"
    then have "t \<in> set ?ts" by simp
    then obtain j where j: "j < length ms"
      and t: "t = \<lparr>binary = binaryOf n (ms ! j), minterms = [ms ! j], used = False, oid = j\<rparr>"
      unfolding initialTerms_set by blast
    from j ms have "ms ! j < 2 ^ n" by simp
    from wellFormed_initial [OF n this] show "wellFormed n t"
      unfolding wellFormed_def t by simp
  qed
  have unused: "\<forall>t \<in> set ?ts. \<not> used t"
  proof
    fix t assume "t \<in> set ?ts"
    then obtain j where
      "t = \<lparr>binary = binaryOf n (ms ! j), minterms = [ms ! j], used = False, oid = j\<rparr>"
      unfolding initialTerms_set by blast
    then show "\<not> used t" by simp
  qed
  have below: "\<forall>x \<in> set ?ts \<union> set []. oid x < length ms"
  proof
    fix t assume "t \<in> set ?ts \<union> set []"
    then have "t \<in> set ?ts" by simp
    then obtain j where "j < length ms"
      "t = \<lparr>binary = binaryOf n (ms ! j), minterms = [ms ! j], used = False, oid = j\<rparr>"
      unfolding initialTerms_set by blast
    then show "oid t < length ms" by simp
  qed
  have inj: "oidInjective (set ?ts \<union> set [])"
    unfolding oidInjective_def
  proof (intro ballI impI)
    fix x y assume "x \<in> set ?ts \<union> set []" "y \<in> set ?ts \<union> set []" and eq: "oid x = oid y"
    then have "x \<in> set ?ts" "y \<in> set ?ts" by simp_all
    then obtain i j where
      x: "x = \<lparr>binary = binaryOf n (ms ! i), minterms = [ms ! i], used = False, oid = i\<rparr>" and
      y: "y = \<lparr>binary = binaryOf n (ms ! j), minterms = [ms ! j], used = False, oid = j\<rparr>"
      unfolding initialTerms_set by blast
    from eq have "i = j" unfolding x y by simp
    then show "x = y" unfolding x y by simp
  qed
  have cov: "\<forall>m \<in> set ms. coveredBy (set ?ts \<union> set []) m"
  proof
    fix m assume "m \<in> set ms"
    then obtain j where j: "j < length ms" "ms ! j = m" by (auto simp: in_set_conv_nth)
    let ?t = "\<lparr>binary = binaryOf n (ms ! j), minterms = [ms ! j], used = False, oid = j\<rparr>"
    from j(1) have "?t \<in> set ?ts" unfolding initialTerms_set by blast
    then have "?t \<in> set ?ts \<union> set []" by simp
    moreover have "m \<in> set (minterms ?t)" using j(2) by simp
    ultimately show "coveredBy (set ?ts \<union> set []) m"
      unfolding coveredBy_def by (rule bexI [rotated])
  qed
  obtain ts' ps' k' where r: "qmLoop n 0 (length ms) ?ts [] 0 = (ts', ps', k')"
    by (cases "qmLoop n 0 (length ms) ?ts [] 0") blast
  have res: "set (quineMcCluskey ms n) = set ps' \<union> set (filter (\<lambda>t. \<not> used t) ts')"
    unfolding quineMcCluskey_def r by simp
  have "oidInjective (set (fst (snd (qmLoop n 0 (length ms) ?ts [] 0))) \<union>
                   set (filter (\<lambda>t. \<not> used t) (fst (qmLoop n 0 (length ms) ?ts [] 0)))) \<and>
     (\<forall>m \<in> set ms. coveredBy (set (fst (snd (qmLoop n 0 (length ms) ?ts [] 0))) \<union>
                   set (filter (\<lambda>t. \<not> used t) (fst (qmLoop n 0 (length ms) ?ts [] 0)))) m)"
    by (rule qmLoop_complete [OF n wf unused below inj cov])
  then show ?thesis unfolding res r fst_conv snd_conv .
qed

section \<open>The selected implicants cover the required minterms\<close>

lemma splice_removed:
  "m \<in> set unc \<Longrightarrow> m \<notin> set (foldl (\<lambda>unc x. remove1 x unc) unc xs) \<Longrightarrow> m \<in> set xs"
proof (induction xs arbitrary: unc)
  case Nil
  then show ?case by simp
next
  case (Cons x xs)
  show ?case
  proof (cases "m = x")
    case True
    then show ?thesis by simp
  next
    case False
    with Cons.prems(1) have "m \<in> set (remove1 x unc)" by simp
    from Cons.IH [OF this] Cons.prems(2) show ?thesis by simp
  qed
qed

lemma greedyCover_keeps: "set add \<subseteq> set (greedyCover pis ess add unc)"
proof (induction pis ess add unc rule: greedyCover.induct)
  case (1 pis ess add unc)
  show ?case
  proof (cases "length unc > 0")
    case False
    then show ?thesis by (simp add: greedyCover.simps)
  next
    case True
    show ?thesis
    proof (cases "pickBest pis ess add unc")
      case None
      with True show ?thesis by (simp add: greedyCover.simps)
    next
      case (Some best)
      from "1.IH" [OF True Some]
      have "set (add @ [best]) \<subseteq> set (greedyCover pis ess (add @ [best]) (spliceCovered unc best))" .
      moreover from True Some have "greedyCover pis ess add unc =
          greedyCover pis ess (add @ [best]) (spliceCovered unc best)"
        by (subst greedyCover.simps) simp
      ultimately show ?thesis by simp
    qed
  qed
qed

lemma includesObj_iff: "includesObj xs p \<longleftrightarrow> (\<exists>q \<in> set xs. oid q = oid p)"
  unfolding includesObj_def image_iff by (rule bex_cong [OF refl]) (rule eq_commute)

lemma greedyCover_complete:
  "oidInjective (set pis) \<Longrightarrow> set ess \<subseteq> set pis \<Longrightarrow>
     set add \<subseteq> set pis \<Longrightarrow> m \<in> set unc \<Longrightarrow> coveredBy (set pis) m \<Longrightarrow>
     coveredBy (set ess \<union> set (greedyCover pis ess add unc)) m"
proof (induction pis ess add unc rule: greedyCover.induct)
  case (1 pis ess add unc)
  note inj = "1.prems"(1) and sub = "1.prems"(2) and addsub = "1.prems"(3)
    and munc = "1.prems"(4) and mcov = "1.prems"(5)
  from munc have pos: "length unc > 0" by (cases unc) auto
  from mcov obtain p where p: "p \<in> set pis" "m \<in> set (minterms p)"
    unfolding coveredBy_def by blast
  show ?case
  proof (cases "pickBest pis ess add unc")
    case None
    with pos have r: "greedyCover pis ess add unc = add" by (subst greedyCover.simps) simp
    have "includesObj ess p \<or> includesObj add p"
    proof (rule ccontr)
      assume "\<not> (includesObj ess p \<or> includesObj add p)"
      with pickBest_None [OF None p(1)] have "coverageCount p unc = 0" by blast
      with p(2) munc show False
        unfolding coverageCount_def by (auto simp: filter_empty_conv)
    qed
    then have "\<exists>q. q \<in> set ess \<union> set add \<and> oid q = oid p"
      unfolding includesObj_iff by blast
    then obtain q where q: "q \<in> set ess \<union> set add" "oid q = oid p" by blast
    with sub addsub have "q \<in> set pis" by blast
    with inj q(2) p(1) have "q = p" unfolding oidInjective_def by blast
    with q(1) p(2) show ?thesis unfolding r coveredBy_def by blast
  next
    case (Some best)
    with pos have r: "greedyCover pis ess add unc =
        greedyCover pis ess (add @ [best]) (spliceCovered unc best)"
      by (subst greedyCover.simps) simp
    from pickBest_Some [OF Some] have best: "best \<in> set pis" by auto
    with addsub have add': "set (add @ [best]) \<subseteq> set pis" by simp
    show ?thesis
    proof (cases "m \<in> set (spliceCovered unc best)")
      case True
      from "1.IH" [OF pos Some inj sub add' True mcov] show ?thesis unfolding r .
    next
      case False
      with munc have "m \<in> set (minterms best)"
        unfolding spliceCovered_def by (rule splice_removed)
      moreover have "best \<in> set (greedyCover pis ess (add @ [best]) (spliceCovered unc best))"
        using greedyCover_keeps [of "add @ [best]" pis ess "spliceCovered unc best"] by simp
      ultimately show ?thesis unfolding r coveredBy_def by blast
    qed
  qed
qed

lemma essentialPIsOf_subset: "set (essentialPIsOf pis ms) \<subseteq> set pis"
proof
  fix p assume "p \<in> set (essentialPIsOf pis ms)"
  from essentialPIsOf_sole [OF this] show "p \<in> set pis" by auto
qed

lemma findEssential_subset: "set (findEssentialPrimeImplicants pis ms) \<subseteq> set pis"
proof
  fix p assume "p \<in> set (findEssentialPrimeImplicants pis ms)"
  then have "p \<in> set (essentialPIsOf pis ms) \<or>
      p \<in> set (greedyCover pis (essentialPIsOf pis ms) []
                 (uncoveredOf (essentialPIsOf pis ms) ms))"
    by (simp add: findEssentialPrimeImplicants_def Let_def)
  then show "p \<in> set pis"
  proof
    assume "p \<in> set (essentialPIsOf pis ms)"
    with essentialPIsOf_subset show ?thesis by blast
  next
    assume "p \<in> set (greedyCover pis (essentialPIsOf pis ms) []
                 (uncoveredOf (essentialPIsOf pis ms) ms))"
    from greedyCover_added [OF this] show ?thesis by simp
  qed
qed

lemma findEssential_complete:
  assumes inj: "oidInjective (set pis)" and cov: "\<forall>m \<in> set ms. coveredBy (set pis) m"
    and m: "m \<in> set ms"
  shows "coveredBy (set (findEssentialPrimeImplicants pis ms)) m"
proof -
  let ?ess = "essentialPIsOf pis ms"
  let ?unc = "uncoveredOf ?ess ms"
  have res: "set (findEssentialPrimeImplicants pis ms) = set ?ess \<union> set (greedyCover pis ?ess [] ?unc)"
    by (simp add: findEssentialPrimeImplicants_def Let_def)
  show ?thesis
  proof (cases "m \<in> set ?unc")
    case True
    have "coveredBy (set ?ess \<union> set (greedyCover pis ?ess [] ?unc)) m"
      by (rule greedyCover_complete [OF inj essentialPIsOf_subset _ True])
         (use cov m in simp_all)
    then show ?thesis unfolding res .
  next
    case False
    with m have "m \<in> set (concat (map minterms ?ess))"
      unfolding uncoveredOf_def by (simp add: Let_def)
    then have "coveredBy (set ?ess) m" unfolding coveredBy_def by auto
    then show ?thesis unfolding res coveredBy_def by blast
  qed
qed

lemma quineMcCluskey_minterms_given:
  "p \<in> set (quineMcCluskey ms n) \<Longrightarrow> set (minterms p) \<subseteq> set ms"
  by (rule quineMcCluskey_preserves [where Q = "\<lambda>b xs. set xs \<subseteq> set ms"]) simp_all

text \<open>
  The cubes selected for a function without don't-cares cover exactly its minterms.
\<close>

lemma selected_cover:
  assumes n: "0 < n" and ms: "\<forall>m \<in> set ms. m < 2 ^ n" and i: "i < 2 ^ n"
  shows "(\<exists>p \<in> set (findEssentialPrimeImplicants (quineMcCluskey ms n) ms).
            covers (binary p) (binaryOf n i)) \<longleftrightarrow> i \<in> set ms"
proof
  assume "\<exists>p \<in> set (findEssentialPrimeImplicants (quineMcCluskey ms n) ms).
            covers (binary p) (binaryOf n i)"
  then obtain p where p: "p \<in> set (findEssentialPrimeImplicants (quineMcCluskey ms n) ms)"
    "covers (binary p) (binaryOf n i)" by blast
  from p(1) findEssential_subset have pq: "p \<in> set (quineMcCluskey ms n)" by blast
  from quineMcCluskey_wellFormed [OF n ms pq] p(2) i have "i \<in> set (minterms p)"
    unfolding wellFormed_def by simp
  with quineMcCluskey_minterms_given [OF pq] show "i \<in> set ms" by blast
next
  assume "i \<in> set ms"
  from quineMcCluskey_complete [OF n ms]
  have "coveredBy (set (findEssentialPrimeImplicants (quineMcCluskey ms n) ms)) i"
    by (intro findEssential_complete) (use \<open>i \<in> set ms\<close> in simp_all)
  then obtain p where p: "p \<in> set (findEssentialPrimeImplicants (quineMcCluskey ms n) ms)"
    "i \<in> set (minterms p)" unfolding coveredBy_def by blast
  from p(1) findEssential_subset have pq: "p \<in> set (quineMcCluskey ms n)" by blast
  from quineMcCluskey_wellFormed [OF n ms pq] p(2) have "covers (binary p) (binaryOf n i)"
    unfolding wellFormed_def by simp
  with p(1) show "\<exists>p \<in> set (findEssentialPrimeImplicants (quineMcCluskey ms n) ms).
            covers (binary p) (binaryOf n i)" by blast
qed

section \<open>Reading the rendered sum of products\<close>

lemma indexOf_nth: "distinct xs \<Longrightarrow> k < length xs \<Longrightarrow> indexOf xs (xs ! k) = int k"
proof (induction xs arbitrary: k)
  case Nil
  then show ?case by simp
next
  case (Cons y ys)
  show ?case
  proof (cases k)
    case 0
    then show ?thesis by simp
  next
    case (Suc j)
    with Cons.prems have j: "j < length ys" "ys ! j \<noteq> y" "distinct ys" by auto
    from Cons.IH [OF j(3,1)] j(2) Suc show ?thesis by (simp add: Let_def)
  qed
qed

lemma isLetter_plain:
  "isLetter c \<Longrightarrow> c \<noteq> CHR ''0'' \<and> c \<noteq> CHR ''1'' \<and> c \<noteq> CHR 0x27 \<and> c \<noteq> CHR ''+'' \<and> c \<noteq> CHR '' ''"
  by (auto simp: isLetter_def)

lemma letterNames_nth:
  assumes "letterNames vars" "k < length vars"
  shows "vars ! k = [hd (vars ! k)]" "isLetter (hd (vars ! k))"
    "varValue vars i (hd (vars ! k)) = Some (binaryOf (length vars) i ! k = CHR ''1'')"
proof -
  from assms have v: "length (vars ! k) = 1" "isLetter (hd (vars ! k))" and d: "distinct vars"
    unfolding letterNames_def by auto
  from v(1) show one: "vars ! k = [hd (vars ! k)]" by (cases "vars ! k") auto
  from v(2) show "isLetter (hd (vars ! k))" .
  have "indexOf vars [hd (vars ! k)] = int k"
    using indexOf_nth [OF d assms(2)] one by simp
  then show "varValue vars i (hd (vars ! k)) = Some (binaryOf (length vars) i ! k = CHR ''1'')"
    by (simp add: varValue_def Let_def)
qed

lemma sopTerm_fold:
  "foldl (\<lambda>term i.
            if b ! i = CHR ''1'' then term @ varAt vars i
            else if b ! i = CHR ''0'' then term @ varAt vars i @ [CHR 0x27]
            else term) acc ks = acc @ concat (map (sopLiteral vars b) ks)"
  by (induction ks arbitrary: acc) (simp_all add: sopLiteral_def)

lemma sopTerm_literals:
  "sopTerm vars p =
     (if concat (map (sopLiteral vars (binary p)) [0..<length (binary p)]) = [] then ''1''
      else concat (map (sopLiteral vars (binary p)) [0..<length (binary p)]))"
  unfolding sopTerm_def sopTerm_fold by (simp add: Let_def)

lemma sopLiteral_cases:
  assumes "letterNames vars" "k < length vars"
  shows "sopLiteral vars b k =
     (if b ! k = CHR ''1'' then [hd (vars ! k)]
      else if b ! k = CHR ''0'' then [hd (vars ! k), CHR 0x27]
      else [])"
  using letterNames_nth(1) [OF assms] assms(2) by (simp add: sopLiteral_def varAt_def)

lemma literals_head:
  assumes "letterNames vars" "\<forall>k \<in> set ks. k < length vars"
  shows "concat (map (sopLiteral vars b) ks) = [] \<or>
         isLetter (hd (concat (map (sopLiteral vars b) ks)))"
  using assms(2)
proof (induction ks)
  case Nil
  show ?case by simp
next
  case (Cons k ks)
  then have k: "k < length vars" and rest: "\<forall>k \<in> set ks. k < length vars" by simp_all
  from letterNames_nth(2) [OF assms(1) k] Cons.IH [OF rest] show ?case
    by (auto simp: sopLiteral_cases [OF assms(1) k])
qed

lemma literals_chars:
  assumes "letterNames vars" "\<forall>k \<in> set ks. k < length vars"
  shows "\<forall>c \<in> set (concat (map (sopLiteral vars b) ks)). isLetter c \<or> c = CHR 0x27"
proof
  fix c assume "c \<in> set (concat (map (sopLiteral vars b) ks))"
  then obtain k where k: "k \<in> set ks" "c \<in> set (sopLiteral vars b k)" by auto
  with assms(2) have lt: "k < length vars" by blast
  from k(2) letterNames_nth(2) [OF assms(1) lt] show "isLetter c \<or> c = CHR 0x27"
    unfolding sopLiteral_cases [OF assms(1) lt] by (auto split: if_splits)
qed

lemma evalProduct_letter:
  assumes "isLetter c" "env c = Some v" "r = [] \<or> isLetter (hd r)" "evalProduct env r = Some w"
  shows "evalProduct env (c # r) = Some (v \<and> w)"
    and "evalProduct env (c # CHR 0x27 # r) = Some (\<not> v \<and> w)"
proof -
  from isLetter_plain [OF assms(1)] have c: "c \<noteq> CHR ''0''" "c \<noteq> CHR ''1''" by simp_all
  show "evalProduct env (c # CHR 0x27 # r) = Some (\<not> v \<and> w)"
    using c assms(2,4) by simp
  show "evalProduct env (c # r) = Some (v \<and> w)"
  proof (cases r)
    case Nil
    with assms(4) have "w" by simp
    with Nil c assms(2) show ?thesis by simp
  next
    case (Cons q r')
    with assms(3) have "isLetter q" by simp
    from isLetter_plain [OF this] have "q \<noteq> CHR 0x27" by simp
    with Cons c assms(2,4) show ?thesis by simp
  qed
qed

lemma evalProduct_literals:
  assumes names: "letterNames vars"
    and b: "triState b"
    and x: "set x \<subseteq> {CHR ''0'', CHR ''1''}" "length x = length vars"
    and env: "\<And>k. k < length vars \<Longrightarrow> env (hd (vars ! k)) = Some (x ! k = CHR ''1'')"
  shows "(\<forall>k \<in> set ks. k < length vars \<and> k < length b) \<Longrightarrow>
     evalProduct env (concat (map (sopLiteral vars b) ks)) =
       Some (\<forall>k \<in> set ks. b ! k = CHR ''-'' \<or> b ! k = x ! k)"
proof (induction ks)
  case Nil
  show ?case by simp
next
  case (Cons k ks)
  then have k: "k < length vars" "k < length b"
    and rest: "\<forall>k \<in> set ks. k < length vars \<and> k < length b" by simp_all
  let ?r = "concat (map (sopLiteral vars b) ks)"
  let ?w = "\<forall>k \<in> set ks. b ! k = CHR ''-'' \<or> b ! k = x ! k"
  note IH = Cons.IH [OF rest]
  have head: "?r = [] \<or> isLetter (hd ?r)"
    by (rule literals_head [OF names]) (use rest in blast)
  note letter = letterNames_nth(2) [OF names k(1)]
  from k(2) b have bk: "b ! k = CHR ''0'' \<or> b ! k = CHR ''1'' \<or> b ! k = CHR ''-''"
    unfolding triState_def by auto
  from k(1) x(2) have "x ! k \<in> set x" by simp
  with x(1) have xk: "x ! k = CHR ''0'' \<or> x ! k = CHR ''1''" by auto
  from bk show ?case
  proof (elim disjE)
    assume b0: "b ! k = CHR ''0''"
    then have "concat (map (sopLiteral vars b) (k # ks)) = hd (vars ! k) # CHR 0x27 # ?r"
      by (simp add: sopLiteral_cases [OF names k(1)])
    moreover have "evalProduct env (hd (vars ! k) # CHR 0x27 # ?r) =
        Some (\<not> (x ! k = CHR ''1'') \<and> ?w)"
      by (rule evalProduct_letter(2) [OF letter env [OF k(1)] head IH])
    moreover have "(\<not> (x ! k = CHR ''1'')) \<longleftrightarrow> (b ! k = CHR ''-'' \<or> b ! k = x ! k)"
      using xk unfolding b0 by (elim disjE) simp_all
    ultimately show ?thesis by simp
  next
    assume b1: "b ! k = CHR ''1''"
    then have "concat (map (sopLiteral vars b) (k # ks)) = hd (vars ! k) # ?r"
      by (simp add: sopLiteral_cases [OF names k(1)])
    moreover have "evalProduct env (hd (vars ! k) # ?r) = Some ((x ! k = CHR ''1'') \<and> ?w)"
      by (rule evalProduct_letter(1) [OF letter env [OF k(1)] head IH])
    moreover have "(x ! k = CHR ''1'') \<longleftrightarrow> (b ! k = CHR ''-'' \<or> b ! k = x ! k)"
      unfolding b1 by (cases "x ! k = CHR ''1''") simp_all
    ultimately show ?thesis by simp
  next
    assume bd: "b ! k = CHR ''-''"
    then have "concat (map (sopLiteral vars b) (k # ks)) = ?r"
      by (simp add: sopLiteral_cases [OF names k(1)])
    with IH bd show ?thesis by simp
  qed
qed

lemma evalProduct_sopTerm:
  assumes names: "letterNames vars" and n: "0 < length vars" and i: "i < 2 ^ length vars"
    and b: "triState (binary p)" "length (binary p) = length vars"
  shows "evalProduct (varValue vars i) (sopTerm vars p) =
           Some (covers (binary p) (binaryOf (length vars) i))"
proof -
  let ?x = "binaryOf (length vars) i"
  let ?r = "concat (map (sopLiteral vars (binary p)) [0..<length (binary p)])"
  have x: "set ?x \<subseteq> {CHR ''0'', CHR ''1''}" "length ?x = length vars"
    using n i by (simp_all add: binaryOf_digits binaryOf_length)
  have "evalProduct (varValue vars i) ?r =
      Some (\<forall>k \<in> set [0..<length (binary p)]. binary p ! k = CHR ''-'' \<or> binary p ! k = ?x ! k)"
    by (rule evalProduct_literals [OF names b(1) x])
       (use letterNames_nth(3) [OF names] b(2) in simp_all)
  also have "(\<forall>k \<in> set [0..<length (binary p)]. binary p ! k = CHR ''-'' \<or> binary p ! k = ?x ! k)
      \<longleftrightarrow> covers (binary p) ?x"
    unfolding covers_nth using x(2) b(2) by auto
  finally have r: "evalProduct (varValue vars i) ?r = Some (covers (binary p) ?x)" .
  show ?thesis
  proof (cases "?r = []")
    case True
    from r have "covers (binary p) ?x" unfolding True by simp
    then show ?thesis unfolding sopTerm_literals if_P [OF True] by simp
  next
    case False
    show ?thesis unfolding sopTerm_literals if_not_P [OF False] by (rule r)
  qed
qed

lemma sopTerm_plain:
  assumes names: "letterNames vars" and b: "length (binary p) = length vars"
  shows "\<forall>c \<in> set (sopTerm vars p). c \<noteq> CHR ''+'' \<and> c \<noteq> CHR '' ''"
proof -
  have "\<forall>c \<in> set (concat (map (sopLiteral vars (binary p)) [0..<length (binary p)])).
      isLetter c \<or> c = CHR 0x27"
    by (rule literals_chars [OF names]) (simp add: b)
  then have "\<forall>c \<in> set (concat (map (sopLiteral vars (binary p)) [0..<length (binary p)])).
      c \<noteq> CHR ''+'' \<and> c \<noteq> CHR '' ''"
    using isLetter_plain by fastforce
  then have lits: "\<forall>c \<in> set (concat (map (sopLiteral vars (binary p)) [0..<length (binary p)])).
      c \<noteq> CHR ''+'' \<and> c \<noteq> CHR '' ''" .
  show ?thesis
  proof (cases "concat (map (sopLiteral vars (binary p)) [0..<length (binary p)]) = []")
    case True
    show ?thesis unfolding sopTerm_literals if_P [OF True] by simp
  next
    case False
    show ?thesis unfolding sopTerm_literals if_not_P [OF False] by (rule lits)
  qed
qed

lemma splitSum_nonempty: "splitSum s \<noteq> []"
  by (induction s) (auto split: list.splits)

lemma splitSum_plain:
  assumes "\<forall>c \<in> set t. c \<noteq> CHR ''+'' \<and> c \<noteq> CHR '' ''"
  shows "splitSum (t @ r) = (t @ hd (splitSum r)) # tl (splitSum r)"
  using assms
proof (induction t)
  case Nil
  show ?case using splitSum_nonempty [of r] by simp
next
  case (Cons c t)
  then have c: "c \<noteq> CHR ''+''" "c \<noteq> CHR '' ''" by simp_all
  from Cons have IH: "splitSum (t @ r) = (t @ hd (splitSum r)) # tl (splitSum r)" by simp
  show ?case using c by (simp add: IH)
qed

lemma splitSum_join:
  assumes "ts \<noteq> []" "\<forall>t \<in> set ts. \<forall>c \<in> set t. c \<noteq> CHR ''+'' \<and> c \<noteq> CHR '' ''"
  shows "splitSum (joinWith '' + '' ts) = ts"
  using assms
proof (induction "'' + ''" ts rule: joinWith.induct)
  case 1
  then show ?case by simp
next
  case (2 t)
  then have "\<forall>c \<in> set t. c \<noteq> CHR ''+'' \<and> c \<noteq> CHR '' ''" by simp
  from splitSum_plain [OF this, of "[]"] show ?case by simp
next
  case (3 t u us)
  then have t: "\<forall>c \<in> set t. c \<noteq> CHR ''+'' \<and> c \<noteq> CHR '' ''"
    and rest: "splitSum (joinWith '' + '' (u # us)) = u # us" by simp_all
  have "splitSum ('' + '' @ joinWith '' + '' (u # us)) = [] # (u # us)"
    using rest by simp
  with splitSum_plain [OF t, of "'' + '' @ joinWith '' + '' (u # us)"] show ?case by simp
qed

lemma evalSOP_convertToSOP:
  assumes names: "letterNames vars" and n: "0 < length vars" and i: "i < 2 ^ length vars"
    and sel: "sel \<noteq> []" "\<forall>p \<in> set sel. triState (binary p) \<and> length (binary p) = length vars"
  shows "evalSOP vars (convertToSOP sel vars) i =
           Some (\<exists>p \<in> set sel. covers (binary p) (binaryOf (length vars) i))"
proof -
  have plain: "\<forall>t \<in> set (map (sopTerm vars) sel). \<forall>c \<in> set t. c \<noteq> CHR ''+'' \<and> c \<noteq> CHR '' ''"
  proof
    fix t assume "t \<in> set (map (sopTerm vars) sel)"
    then obtain p where p: "p \<in> set sel" "t = sopTerm vars p" by auto
    with sel(2) have "length (binary p) = length vars" by blast
    from sopTerm_plain [OF names this] show "\<forall>c \<in> set t. c \<noteq> CHR ''+'' \<and> c \<noteq> CHR '' ''"
      unfolding p(2) .
  qed
  have "splitSum (convertToSOP sel vars) = map (sopTerm vars) sel"
    using splitSum_join [OF _ plain] sel(1) by (simp add: convertToSOP_def)
  moreover have "map (evalProduct (varValue vars i)) (map (sopTerm vars) sel) =
      map (\<lambda>p. Some (covers (binary p) (binaryOf (length vars) i))) sel"
    unfolding map_map comp_def
  proof (rule map_cong [OF refl])
    fix p assume "p \<in> set sel"
    with sel(2) have "triState (binary p)" "length (binary p) = length vars" by blast+
    then show "evalProduct (varValue vars i) (sopTerm vars p) =
        Some (covers (binary p) (binaryOf (length vars) i))"
      by (rule evalProduct_sopTerm [OF names n i])
  qed
  ultimately have "evalSOP vars (convertToSOP sel vars) i =
      (let vals = map (\<lambda>p. Some (covers (binary p) (binaryOf (length vars) i))) sel
       in if None \<in> set vals then None else Some (Some True \<in> set vals))"
    by (simp add: evalSOP_def)
  also have "\<dots> = Some (\<exists>p \<in> set sel. covers (binary p) (binaryOf (length vars) i))"
    by (auto simp: Let_def image_iff)
  finally show ?thesis .
qed

text \<open>
  Claim C1. For \<open>n\<close> from two to six variables (named by distinct single letters) and
  any set of minterms below \<open>2 ^ n\<close>, given as a list without repetition and with no
  don't-cares, the sum of products that \<open>simplify\<close> returns evaluates to one at exactly
  the given minterms, and to zero at every other index below \<open>2 ^ n\<close>.
\<close>

theorem sop_round_trip:
  assumes "2 \<le> n" "n \<le> 6" "length vars = n" "letterNames vars"
    and "distinct ms" "set ms \<subseteq> {0..<2 ^ n}" "i < 2 ^ n"
  shows "evalSOP vars
           (sop (simplify \<lparr>variables = vars, mins = ms, numVars = n, dontCares = []\<rparr>)) i
         = Some (i \<in> set ms)"
proof -
  let ?k = "\<lparr>variables = vars, mins = ms, numVars = n, dontCares = []\<rparr>"
  from assms(1) have n: "0 < n" by simp
  from assms(6) have range: "\<forall>m \<in> set ms. m < 2 ^ n" by auto
  consider "ms = []" | "ms \<noteq> []" "length ms = 2 ^ n" | "ms \<noteq> []" "length ms \<noteq> 2 ^ n"
    by blast
  then show ?thesis
  proof cases
    case 1
    then have "sop (simplify ?k) = ''0''" by (simp add: simplify_def)
    with 1 show ?thesis by (simp add: evalSOP_def)
  next
    case 2
    then have s: "sop (simplify ?k) = ''1''" by (simp add: simplify_def)
    from assms(5) 2(2) have "card (set ms) = card {0..<(2::nat) ^ n}"
      by (simp add: distinct_card)
    with assms(6) have "set ms = {0..<2 ^ n}"
      by (intro card_subset_eq) simp_all
    with assms(7) have "i \<in> set ms" by simp
    with s show ?thesis by (simp add: evalSOP_def)
  next
    case 3
    let ?sel = "findEssentialPrimeImplicants (quineMcCluskey ms n) ms"
    from 3 have s: "sop (simplify ?k) = convertToSOP ?sel vars"
      by (simp add: simplify_def Let_def)
    have wf: "\<forall>p \<in> set ?sel. triState (binary p) \<and> length (binary p) = length vars"
    proof
      fix p assume "p \<in> set ?sel"
      with findEssential_subset have "p \<in> set (quineMcCluskey ms n)" by blast
      from quineMcCluskey_wellFormed [OF n range this] assms(3)
      show "triState (binary p) \<and> length (binary p) = length vars"
        unfolding wellFormed_def by simp
    qed
    from 3(1) obtain m where m: "m \<in> set ms" by (cases ms) auto
    with assms(6) have "m < 2 ^ n" by auto
    from selected_cover [OF n range this] m have ne: "?sel \<noteq> []" by auto
    have "evalSOP vars (convertToSOP ?sel vars) i =
        Some (\<exists>p \<in> set ?sel. covers (binary p) (binaryOf (length vars) i))"
      by (rule evalSOP_convertToSOP [OF assms(4) _ _ ne wf]) (use n assms(3,7) in simp_all)
    also have "\<dots> = Some (i \<in> set ms)"
      using selected_cover [OF n range assms(7)] assms(3) by simp
    finally show ?thesis unfolding s .
  qed
qed

theorem sop_round_trip_witness:
  "(2::nat) \<le> 3 \<and> (3::nat) \<le> 6 \<and> length [''A'', ''B'', ''C''] = 3 \<and>
   letterNames [''A'', ''B'', ''C''] \<and> distinct [3, 5, 6, 7 :: nat] \<and>
   set [3, 5, 6, 7] \<subseteq> {0..<(2::nat) ^ 3} \<and> (5::nat) < 2 ^ 3 \<and>
   evalSOP [''A'', ''B'', ''C'']
     (sop (simplify \<lparr>variables = [''A'', ''B'', ''C''], mins = [3, 5, 6, 7], numVars = 3,
                     dontCares = []\<rparr>)) 5
     = Some ((5::nat) \<in> set [3, 5, 6, 7])"
proof -
  have h: "(2::nat) \<le> 3" "(3::nat) \<le> 6" "length [''A'', ''B'', ''C''] = 3"
    "distinct [3, 5, 6, 7 :: nat]" "set [3, 5, 6, 7] \<subseteq> {0..<(2::nat) ^ 3}" "(5::nat) < 2 ^ 3"
    by simp_all
  have l: "letterNames [''A'', ''B'', ''C'']"
    by (simp add: letterNames_def isLetter_def)
  from sop_round_trip [OF h(1,2,3) l h(4,5,6)] h l show ?thesis by blast
qed


end
